theory Spec2Isabelle
  imports Main
begin

section \<open>JavaScript strings\<close>

text \<open>
  A JavaScript string is a sequence of UTF-16 code units; the sources strip
  U+200E, U+200F and U+FEFF and match an en dash, so a code unit is a natural
  number here and \<open>asc\<close> writes an ASCII literal.
\<close>

type_synonym jstring = "nat list"

definition asc :: "string \<Rightarrow> jstring" where
  "asc s = map of_char s"

text \<open>
  \<open>String.prototype.toLowerCase\<close>, code unit by code unit. The table is exact on
  every code unit whose lower-case form contains an ASCII code unit (A-Z, the
  Kelvin sign U+212A, and U+0130 which becomes i followed by U+0307); every other
  code unit is left as it is, which is again outside ASCII. All lists the program
  compares lower-cased strings with are ASCII, so membership in them is exact.
\<close>

definition lowerUnit :: "nat \<Rightarrow> jstring" where
  "lowerUnit c =
     (if 65 \<le> c \<and> c \<le> 90 then [c + 32]
      else if c = 8490 then [107]
      else if c = 304 then [105, 775]
      else [c])"

definition toLowerCase :: "jstring \<Rightarrow> jstring" where
  "toLowerCase s = concat (map lowerUnit s)"

text \<open>\<open>s.split(sep)\<close> for a separator of one code unit: never the empty array.\<close>

fun split_unit :: "nat \<Rightarrow> jstring \<Rightarrow> jstring list" where
  "split_unit sep [] = [[]]"
| "split_unit sep (c # cs) =
     (if c = sep then [] # split_unit sep cs
      else (case split_unit sep cs of
              [] \<Rightarrow> [[c]]
            | p # ps \<Rightarrow> (c # p) # ps))"

text \<open>\<open>Array.prototype.pop\<close>: the last element, \<open>undefined\<close> on the empty array.\<close>

fun pop :: "'a list \<Rightarrow> 'a option" where
  "pop [] = None"
| "pop [x] = Some x"
| "pop (x # y # ys) = pop (y # ys)"

fun startsWith :: "jstring \<Rightarrow> jstring \<Rightarrow> bool" where
  "startsWith s [] = True"
| "startsWith [] (p # ps) = False"
| "startsWith (c # cs) (p # ps) = (c = p \<and> startsWith cs ps)"

text \<open>\<open>s.includes(sub)\<close>: \<open>sub\<close> occurs in \<open>s\<close> as a contiguous run.\<close>

fun str_includes :: "jstring \<Rightarrow> jstring \<Rightarrow> bool" where
  "str_includes [] sub = (sub = [])"
| "str_includes (c # cs) sub = (startsWith (c # cs) sub \<or> str_includes cs sub)"

definition isDigit :: "nat \<Rightarrow> bool" where
  "isDigit c = (48 \<le> c \<and> c \<le> 57)"

text \<open>
  \<open>Number(s)\<close>. The program applies it only to captures of \<open>\d\<close> patterns and to
  pieces of them; on such a string it is the decimal value, which is all this
  definition covers.
\<close>

definition Number :: "jstring \<Rightarrow> int" where
  "Number s = foldl (\<lambda>a c. 10 * a + (int c - 48)) 0 s"

section \<open>Media kinds and extension lists\<close>

datatype media_kind = Image | Sticker | Document | Audio | Video

text \<open>\<open>filename.split('.').pop()?.toLowerCase()\<close>, then \<open>extension || ''\<close>.\<close>

definition extension_of :: "jstring \<Rightarrow> jstring" where
  "extension_of filename =
     (case pop (split_unit 46 filename) of
        None \<Rightarrow> []
      | Some e \<Rightarrow> toLowerCase e)"

text \<open>\<open>MediaLoader.getMediaType\<close> (MediaLoader.ts).\<close>

definition MediaLoader_getMediaType :: "jstring \<Rightarrow> media_kind" where
  "MediaLoader_getMediaType filename =
     (let extension = extension_of filename in
      if extension \<in> set (map asc [''jpg'', ''jpeg'', ''png'', ''gif'', ''webp'', ''bmp'', ''heic'', ''heif''])
      then Image
      else if extension \<in> set (map asc [''webp'', ''tgs'']) \<and> str_includes filename (asc ''sticker'')
      then Sticker
      else if extension \<in> set (map asc [''mp3'', ''wav'', ''ogg'', ''m4a'', ''aac''])
      then Audio
      else if extension \<in> set (map asc [''mp4'', ''mov'', ''avi'', ''webm'', ''3gp''])
      then Video
      else Document)"

text \<open>\<open>getMediaType\<close> of the viewer component: the same, with \<open>opus\<close> as audio.\<close>

definition getMediaType :: "jstring \<Rightarrow> media_kind" where
  "getMediaType filename =
     (let extension = extension_of filename in
      if extension \<in> set (map asc [''jpg'', ''jpeg'', ''png'', ''gif'', ''webp'', ''bmp'', ''heic'', ''heif''])
      then Image
      else if extension \<in> set (map asc [''webp'', ''tgs'']) \<and> str_includes filename (asc ''sticker'')
      then Sticker
      else if extension \<in> set (map asc [''mp3'', ''wav'', ''ogg'', ''m4a'', ''aac'', ''opus''])
      then Audio
      else if extension \<in> set (map asc [''mp4'', ''mov'', ''avi'', ''webm'', ''3gp''])
      then Video
      else Document)"

text \<open>The array literal of \<open>MediaLoader.buildMediaIndex\<close>.\<close>

definition indexMediaExts :: "jstring list" where
  "indexMediaExts = map asc
     [''jpg'', ''jpeg'', ''png'', ''gif'', ''webp'', ''bmp'', ''heic'', ''heif'', ''tgs'',
      ''mp4'', ''mov'', ''avi'', ''webm'', ''3gp'',
      ''mp3'', ''wav'', ''ogg'', ''m4a'', ''aac'', ''opus'',
      ''pdf'', ''doc'', ''docx'', ''xls'', ''xlsx'', ''ppt'', ''pptx'']"

text \<open>\<open>DEFAULT_MEDIA_EXTS\<close> of the splitter (spilter.ts).\<close>

definition DEFAULT_MEDIA_EXTS :: "jstring list" where
  "DEFAULT_MEDIA_EXTS = map asc
     [''jpg'', ''jpeg'', ''png'', ''gif'', ''webp'',
      ''mp4'', ''mov'', ''avi'', ''mkv'',
      ''ogg'', ''opus'', ''mp3'', ''wav'', ''m4a'',
      ''pdf'', ''doc'', ''docx'', ''xls'', ''xlsx'', ''ppt'', ''pptx'',
      ''heic'', ''heif'',
      ''aac'']"

text \<open>The default set as the specification lists it, kind by kind.\<close>

definition spec_image_exts :: "jstring list" where
  "spec_image_exts = map asc
     [''jpg'', ''jpeg'', ''png'', ''gif'', ''webp'', ''bmp'', ''heic'', ''heif'', ''tgs'']"

definition spec_video_exts :: "jstring list" where
  "spec_video_exts = map asc [''mp4'', ''mov'', ''avi'', ''webm'', ''3gp'', ''mkv'']"

definition spec_audio_exts :: "jstring list" where
  "spec_audio_exts = map asc [''mp3'', ''wav'', ''ogg'', ''m4a'', ''aac'', ''opus'']"

definition spec_document_exts :: "jstring list" where
  "spec_document_exts = map asc
     [''pdf'', ''doc'', ''docx'', ''xls'', ''xlsx'', ''ppt'', ''pptx'']"

definition spec_media_exts :: "jstring set" where
  "spec_media_exts =
     set spec_image_exts \<union> set spec_video_exts \<union> set spec_audio_exts \<union> set spec_document_exts"

section \<open>Two-digit years\<close>

text \<open>\<open>toFourDigitYear\<close> of the message parser.\<close>

definition toFourDigitYear :: "jstring \<Rightarrow> int" where
  "toFourDigitYear y =
     (if length y = 2
      then (if Number y < 50 then 2000 + Number y else 1900 + Number y)
      else Number y)"

text \<open>\<open>twoDigitYearToFull\<close> of the splitter.\<close>

definition twoDigitYearToFull :: "jstring \<Rightarrow> int" where
  "twoDigitYearToFull y = (let num = Number y in if num \<ge> 70 then 1900 + num else 2000 + num)"

section \<open>Regular expressions\<close>

text \<open>
  The patterns of the sources, as terms, and the backtracking matcher of
  JavaScript on them. The character classes: \<open>\d\<close>, \<open>\s\<close>, the dot (any code unit
  but a line terminator), \<open>[A-Za-z0-9]\<close>, a listed class and a negated listed class.
\<close>

datatype cclass = Digit | Space | Dot | Alnum | OneOf jstring | NoneOf jstring

definition whiteSpace :: "nat list" where
  "whiteSpace = [9, 10, 11, 12, 13, 32, 160, 5760, 8192, 8193, 8194, 8195, 8196, 8197, 8198,
     8199, 8200, 8201, 8202, 8232, 8233, 8239, 8287, 12288, 65279]"

fun in_class :: "cclass \<Rightarrow> nat \<Rightarrow> bool" where
  "in_class Digit c = isDigit c"
| "in_class Space c = (c \<in> set whiteSpace)"
| "in_class Dot c = (c \<notin> set [10, 13, 8232, 8233])"
| "in_class Alnum c = ((65 \<le> c \<and> c \<le> 90) \<or> (97 \<le> c \<and> c \<le> 122) \<or> isDigit c)"
| "in_class (OneOf s) c = (c \<in> set s)"
| "in_class (NoneOf s) c = (c \<notin> set s)"

text \<open>
  \<open>Lit\<close> is a run of literal code units, \<open>Rep k lo hi\<close> the greedy quantifier
  \<open>{lo,hi}\<close> on a character class (\<open>None\<close> for no upper bound), \<open>Opt\<close> the greedy
  \<open>?\<close>, \<open>Alt\<close> the alternative, \<open>Grp n\<close> the capturing group number \<open>n\<close>,
  \<open>Bol\<close> and \<open>Eol\<close> the assertions \<open>^\<close> and \<open>$\<close> (no flag \<open>m\<close> in the sources).
  Every quantified or optional part of the patterns of the sources has this form,
  and no optional part of them can match the empty string.
\<close>

datatype regex =
    Eps
  | Lit jstring
  | Cls cclass
  | Rep cclass nat "nat option"
  | Opt regex
  | Alt regex regex
  | Seq regex regex
  | Grp nat regex
  | Bol
  | Eol

definition seqs :: "regex list \<Rightarrow> regex" where
  "seqs rs = foldr Seq rs Eps"

text \<open>
  With the flag \<open>i\<close> two code units match when their canonical forms are equal.
  The literals of the patterns are ASCII, and the canonical form of a code unit
  outside ASCII is never an ASCII code unit, so the upper-casing of the ASCII
  letters is all that the comparisons need.
\<close>

definition canon :: "nat \<Rightarrow> nat" where
  "canon c = (if 97 \<le> c \<and> c \<le> 122 then c - 32 else c)"

fun lit_match :: "bool \<Rightarrow> jstring \<Rightarrow> jstring \<Rightarrow> bool" where
  "lit_match ic [] s = True"
| "lit_match ic (p # ps) [] = False"
| "lit_match ic (p # ps) (c # cs) =
     ((if ic then canon p = canon c else p = c) \<and> lit_match ic ps cs)"

text \<open>
  A state of the matcher: the position, the rest of the input from there, and the
  captures made so far (the latest first). \<open>rmatch\<close> gives all the states in
  which the pattern can end, in the order in which backtracking tries them: a
  greedy quantifier tries the longest run first, an alternative its left side
  first, an optional part its presence first.
\<close>

type_synonym mstate = "nat \<times> jstring \<times> (nat \<times> jstring) list"

primrec rmatch :: "bool \<Rightarrow> regex \<Rightarrow> mstate \<Rightarrow> mstate list" where
  "rmatch ic Eps st = [st]"
| "rmatch ic (Lit l) st =
     (case st of (p, s, caps) \<Rightarrow>
        if lit_match ic l s then [(p + length l, drop (length l) s, caps)] else [])"
| "rmatch ic (Cls k) st =
     (case st of (p, s, caps) \<Rightarrow>
        (case s of [] \<Rightarrow> [] | c # cs \<Rightarrow> if in_class k c then [(Suc p, cs, caps)] else []))"
| "rmatch ic (Rep k lo hi) st =
     (case st of (p, s, caps) \<Rightarrow>
        (let run = length (takeWhile (in_class k) s);
             most = (case hi of None \<Rightarrow> run | Some h \<Rightarrow> min run h)
         in map (\<lambda>n. (p + n, drop n s, caps)) (rev [lo ..< Suc most])))"
| "rmatch ic (Opt r) st = rmatch ic r st @ [st]"
| "rmatch ic (Alt a b) st = rmatch ic a st @ rmatch ic b st"
| "rmatch ic (Seq a b) st = concat (map (rmatch ic b) (rmatch ic a st))"
| "rmatch ic (Grp n r) st =
     map (\<lambda>st'. case st' of (p', s', caps') \<Rightarrow>
            (p', s', (n, take (p' - fst st) (fst (snd st))) # caps'))
         (rmatch ic r st)"
| "rmatch ic Bol st = (if fst st = 0 then [st] else [])"
| "rmatch ic Eol st = (if fst (snd st) = [] then [st] else [])"

text \<open>
  \<open>rx.exec(s)\<close> tries the start positions from the left and takes the first way
  the pattern matches there; \<open>exec\<close> gives the captures by group number,
  \<open>test\<close> whether there is a match, and \<open>cap m n\<close> reads a group that took part
  in the match.
\<close>

fun search :: "bool \<Rightarrow> regex \<Rightarrow> nat \<Rightarrow> jstring \<Rightarrow> mstate option" where
  "search ic r p [] = (case rmatch ic r (p, [], []) of [] \<Rightarrow> None | st # _ \<Rightarrow> Some st)"
| "search ic r p (c # cs) =
     (case rmatch ic r (p, c # cs, []) of
        [] \<Rightarrow> search ic r (Suc p) cs
      | st # _ \<Rightarrow> Some st)"

type_synonym captures = "nat \<Rightarrow> jstring option"

definition exec :: "bool \<Rightarrow> regex \<Rightarrow> jstring \<Rightarrow> captures option" where
  "exec ic r s = map_option (\<lambda>st. map_of (snd (snd st))) (search ic r 0 s)"

definition test :: "bool \<Rightarrow> regex \<Rightarrow> jstring \<Rightarrow> bool" where
  "test ic r s = (exec ic r s \<noteq> None)"

definition cap :: "captures \<Rightarrow> nat \<Rightarrow> jstring" where
  "cap m n = (case m n of None \<Rightarrow> [] | Some s \<Rightarrow> s)"

text \<open>A pattern without letters matches the same with and without the flag \<open>i\<close>.\<close>

primrec caseless :: "regex \<Rightarrow> bool" where
  "caseless Eps = True"
| "caseless (Lit l) = (\<forall>p \<in> set l. \<not> (65 \<le> p \<and> p \<le> 90) \<and> \<not> (97 \<le> p \<and> p \<le> 122))"
| "caseless (Cls k) = True"
| "caseless (Rep k lo hi) = True"
| "caseless (Opt r) = caseless r"
| "caseless (Alt a b) = (caseless a \<and> caseless b)"
| "caseless (Seq a b) = (caseless a \<and> caseless b)"
| "caseless (Grp n r) = caseless r"
| "caseless Bol = True"
| "caseless Eol = True"

section \<open>Dates\<close>

text \<open>
  A \<open>Date\<close> is its time value: milliseconds since the epoch, or NaN for an
  invalid date.
\<close>

datatype jsdate = TimeValue int | InvalidDate

text \<open>
  The host's conversion of a local time to UTC (\<open>UTC(t)\<close> of ECMAScript) depends
  on the time zone of the machine; the functions that build dates take it as the
  parameter \<open>utc\<close>.
\<close>

type_synonym zone = "int \<Rightarrow> int"

definition DayFromYear :: "int \<Rightarrow> int" where
  "DayFromYear y =
     365 * (y - 1970) + (y - 1969) div 4 - (y - 1901) div 100 + (y - 1601) div 400"

definition InLeapYear :: "int \<Rightarrow> bool" where
  "InLeapYear y = (y mod 4 = 0 \<and> (y mod 100 \<noteq> 0 \<or> y mod 400 = 0))"

definition daysBeforeMonth :: "bool \<Rightarrow> int \<Rightarrow> int" where
  "daysBeforeMonth leap m =
     (if m = 0 then 0 else if m = 1 then 31
      else (if leap then 1 else 0) +
        (if m = 2 then 59 else if m = 3 then 90 else if m = 4 then 120
         else if m = 5 then 151 else if m = 6 then 181 else if m = 7 then 212
         else if m = 8 then 243 else if m = 9 then 273 else if m = 10 then 304
         else 334))"

definition MakeDay :: "int \<Rightarrow> int \<Rightarrow> int \<Rightarrow> int" where
  "MakeDay year month date =
     (let ym = year + month div 12; mn = month mod 12
      in DayFromYear ym + daysBeforeMonth (InLeapYear ym) mn + date - 1)"

definition MakeTime :: "int \<Rightarrow> int \<Rightarrow> int \<Rightarrow> int \<Rightarrow> int" where
  "MakeTime hour minute sec ms = hour * 3600000 + minute * 60000 + sec * 1000 + ms"

definition MakeDate :: "int \<Rightarrow> int \<Rightarrow> int" where
  "MakeDate day time = day * 86400000 + time"

definition TimeClip :: "int \<Rightarrow> jsdate" where
  "TimeClip t = (if \<bar>t\<bar> > 8640000000000000 then InvalidDate else TimeValue t)"

text \<open>\<open>new Date(year, monthIndex, day, hours, minutes, seconds)\<close> on integers.\<close>

definition newDate :: "zone \<Rightarrow> int \<Rightarrow> int \<Rightarrow> int \<Rightarrow> int \<Rightarrow> int \<Rightarrow> int \<Rightarrow> jsdate" where
  "newDate utc year monthIndex day hours minutes seconds =
     (let yr = (if 0 \<le> year \<and> year \<le> 99 then 1900 + year else year)
      in TimeClip (utc (MakeDate (MakeDay yr monthIndex day) (MakeTime hours minutes seconds 0))))"

section \<open>The splitter (spilter.ts)\<close>

definition isValidDate :: "jsdate \<Rightarrow> bool" where
  "isValidDate d = (d \<noteq> InvalidDate)"

text \<open>A comparison with NaN is false.\<close>

fun inRange :: "jsdate \<Rightarrow> jsdate \<Rightarrow> jsdate \<Rightarrow> bool" where
  "inRange (TimeValue t) (TimeValue s) (TimeValue e) = (t \<ge> s \<and> t \<le> e)"
| "inRange d start end = False"

definition extRe :: regex where
  "extRe = seqs [Lit (asc ''.''), Grp 1 (Rep Alnum 1 None), Eol]"

definition getExtension :: "jstring \<Rightarrow> jstring option" where
  "getExtension name = (case exec False extRe name of None \<Rightarrow> None | Some m \<Rightarrow> Some (cap m 1))"

text \<open>\<open>String.prototype.trim\<close>.\<close>

definition trim :: "jstring \<Rightarrow> jstring" where
  "trim s = rev (dropWhile (in_class Space) (rev (dropWhile (in_class Space) s)))"

text \<open>\<open>text.split(/\r?\n/)\<close>.\<close>

fun split_lines :: "jstring \<Rightarrow> jstring list" where
  "split_lines [] = [[]]"
| "split_lines [c] = (if c = 10 then [[], []] else [[c]])"
| "split_lines (c # d # cs) =
     (if c = 10 then [] # split_lines (d # cs)
      else if c = 13 \<and> d = 10 then [] # split_lines cs
      else (case split_lines (d # cs) of
              [] \<Rightarrow> [[c]]
            | p # ps \<Rightarrow> (c # p) # ps))"

text \<open>\<open>out.join("\n")\<close>.\<close>

fun join_nl :: "jstring list \<Rightarrow> jstring" where
  "join_nl [] = []"
| "join_nl [x] = x"
| "join_nl (x # y # ys) = x @ 10 # join_nl (y # ys)"

text \<open>
  The patterns of \<open>parseTimestampFromChatLine\<close>: the guard \<open>/^[\[\d]/\<close> and the
  patterns of its six blocks, in their order.
\<close>

definition startRe :: regex where
  "startRe = seqs [Bol, Alt (Lit (asc ''['')) (Cls Digit)]"

definition chatRe1 :: regex where
  "chatRe1 = seqs [Bol, Lit (asc ''[''), Grp 1 (Rep Digit 1 (Some 2)), Lit (asc ''/''),
     Grp 2 (Rep Digit 1 (Some 2)), Lit (asc ''/''), Grp 3 (Rep Digit 2 (Some 4)),
     Opt (Lit (asc '','')), Rep Space 1 None,
     Grp 4 (Rep Digit 1 (Some 2)), Lit (asc '':''), Grp 5 (Rep Digit 2 (Some 2)),
     Opt (Seq (Lit (asc '':'')) (Grp 6 (Rep Digit 2 (Some 2)))), Lit (asc '']'')]"

definition chatRe2 :: regex where
  "chatRe2 = seqs [Bol, Grp 1 (Rep Digit 1 (Some 2)), Lit (asc ''/''),
     Grp 2 (Rep Digit 1 (Some 2)), Lit (asc ''/''), Grp 3 (Rep Digit 2 (Some 4)),
     Lit (asc '',''), Rep Space 1 None,
     Grp 4 (Rep Digit 1 (Some 2)), Lit (asc '':''), Grp 5 (Rep Digit 2 (Some 2)),
     Opt (Seq (Lit (asc '':'')) (Grp 6 (Rep Digit 2 (Some 2))))]"

definition chatRe3 :: regex where
  "chatRe3 = seqs [Bol, Grp 1 (Rep Digit 1 (Some 2)), Lit (asc ''/''),
     Grp 2 (Rep Digit 1 (Some 2)), Lit (asc ''/''), Grp 3 (Rep Digit 2 (Some 4)),
     Lit (asc '',''), Rep Space 1 None,
     Grp 4 (Rep Digit 1 (Some 2)), Lit (asc '':''), Grp 5 (Rep Digit 2 (Some 2)),
     Rep Space 0 None, Grp 6 (Alt (Lit (asc ''AM'')) (Lit (asc ''PM'')))]"

definition chatRe4 :: regex where
  "chatRe4 = seqs [Bol, Grp 1 (Rep Digit 1 (Some 2)), Lit (asc ''.''),
     Grp 2 (Rep Digit 1 (Some 2)), Lit (asc ''.''), Grp 3 (Rep Digit 4 (Some 4)),
     Lit (asc '',''), Rep Space 1 None,
     Grp 4 (Rep Digit 1 (Some 2)), Lit (asc '':''), Grp 5 (Rep Digit 2 (Some 2)),
     Opt (Seq (Lit (asc '':'')) (Grp 6 (Rep Digit 2 (Some 2))))]"

definition chatRe5 :: regex where
  "chatRe5 = seqs [Bol, Grp 1 (Rep Digit 4 (Some 4)), Lit (asc ''-''),
     Grp 2 (Rep Digit 2 (Some 2)), Lit (asc ''-''), Grp 3 (Rep Digit 2 (Some 2)),
     Lit (asc '',''), Rep Space 1 None,
     Grp 4 (Rep Digit 1 (Some 2)), Lit (asc '':''), Grp 5 (Rep Digit 2 (Some 2)),
     Opt (Seq (Lit (asc '':'')) (Grp 6 (Rep Digit 2 (Some 2))))]"

definition chatRe6 :: regex where
  "chatRe6 = seqs [Bol, Grp 1 (Rep Digit 4 (Some 4)), Lit (asc ''/''),
     Grp 2 (Rep Digit 2 (Some 2)), Lit (asc ''/''), Grp 3 (Rep Digit 2 (Some 2)),
     Lit (asc '',''), Rep Space 1 None,
     Grp 4 (Rep Digit 1 (Some 2)), Lit (asc '':''), Grp 5 (Rep Digit 2 (Some 2)),
     Opt (Seq (Lit (asc '':'')) (Grp 6 (Rep Digit 2 (Some 2))))]"

text \<open>The part that the second and the third pattern of the chat line parser share.\<close>

definition dashedPrefix :: "regex list" where
  "dashedPrefix = [Grp 1 (Rep Digit 1 (Some 2)), Lit (asc ''/''),
     Grp 2 (Rep Digit 1 (Some 2)), Lit (asc ''/''), Grp 3 (Rep Digit 2 (Some 4)),
     Lit (asc '',''), Rep Space 1 None,
     Grp 4 (Rep Digit 1 (Some 2)), Lit (asc '':''), Grp 5 (Rep Digit 2 (Some 2))]"

text \<open>\<open>s ? Number(s) : 0\<close> for an optional capture.\<close>

definition optSeconds :: "captures \<Rightarrow> nat \<Rightarrow> int" where
  "optSeconds m n = (case m n of None \<Rightarrow> 0 | Some s \<Rightarrow> if s = [] then 0 else Number s)"

text \<open>\<open>isValidDate(date) ? date : null\<close>.\<close>

definition validOrNull :: "jsdate \<Rightarrow> jsdate option" where
  "validOrNull d = (if isValidDate d then Some d else None)"

definition parseTimestampFromChatLine :: "zone \<Rightarrow> jstring \<Rightarrow> jsdate option" where
  "parseTimestampFromChatLine utc line =
     (let l = trim line in
      if \<not> test False startRe l then None
      else case exec False chatRe1 l of
        Some m \<Rightarrow>
          (let d = cap m 1; mo = cap m 2; y = cap m 3; h = cap m 4; mi = cap m 5;
               yyyy = (if length y = 2 then twoDigitYearToFull y else Number y)
           in validOrNull (newDate utc yyyy (Number mo - 1) (Number d) (Number h) (Number mi)
                (optSeconds m 6)))
      | None \<Rightarrow>
      case exec False chatRe2 l of
        Some m \<Rightarrow>
          (let d = cap m 1; mo = cap m 2; y = cap m 3; h = cap m 4; mi = cap m 5;
               yyyy = (if length y = 2 then twoDigitYearToFull y else Number y)
           in validOrNull (newDate utc yyyy (Number mo - 1) (Number d) (Number h) (Number mi)
                (optSeconds m 6)))
      | None \<Rightarrow>
      case exec True chatRe3 l of
        Some m \<Rightarrow>
          (let mo = cap m 1; d = cap m 2; y = cap m 3; h = cap m 4; mi = cap m 5; ap = cap m 6;
               yyyy = (if length y = 2 then twoDigitYearToFull y else Number y);
               hour = Number h mod 12;
               hour = (if test True (Lit (asc ''PM'')) ap then hour + 12 else hour)
           in validOrNull (newDate utc yyyy (Number mo - 1) (Number d) hour (Number mi) 0))
      | None \<Rightarrow>
      case exec False chatRe4 l of
        Some m \<Rightarrow>
          (let d = cap m 1; mo = cap m 2; yyyy = cap m 3; h = cap m 4; mi = cap m 5
           in validOrNull (newDate utc (Number yyyy) (Number mo - 1) (Number d) (Number h)
                (Number mi) (optSeconds m 6)))
      | None \<Rightarrow>
      case exec False chatRe5 l of
        Some m \<Rightarrow>
          (let yyyy = cap m 1; mo = cap m 2; d = cap m 3; h = cap m 4; mi = cap m 5
           in validOrNull (newDate utc (Number yyyy) (Number mo - 1) (Number d) (Number h)
                (Number mi) (optSeconds m 6)))
      | None \<Rightarrow>
      case exec False chatRe6 l of
        Some m \<Rightarrow>
          (let yyyy = cap m 1; mo = cap m 2; d = cap m 3; h = cap m 4; mi = cap m 5
           in validOrNull (newDate utc (Number yyyy) (Number mo - 1) (Number d) (Number h)
                (Number mi) (optSeconds m 6)))
      | None \<Rightarrow> None)"

text \<open>
  The loop of \<open>filterChatByRange\<close>: the lines still to read, \<open>keepCurrentBlock\<close>
  and \<open>out\<close>.
\<close>

fun filterLoop :: "zone \<Rightarrow> jsdate \<Rightarrow> jsdate \<Rightarrow> jstring list \<Rightarrow> bool \<Rightarrow> jstring list \<Rightarrow> jstring list" where
  "filterLoop utc start end [] keepCurrentBlock out = out"
| "filterLoop utc start end (line # lines) keepCurrentBlock out =
     (case parseTimestampFromChatLine utc line of
        Some ts \<Rightarrow>
          (let keep = inRange ts start end
           in filterLoop utc start end lines keep (if keep then out @ [line] else out))
      | None \<Rightarrow>
          filterLoop utc start end lines keepCurrentBlock
            (if keepCurrentBlock then out @ [line] else out))"

definition filterChatByRange :: "zone \<Rightarrow> jstring \<Rightarrow> jsdate \<Rightarrow> jsdate \<Rightarrow> jstring" where
  "filterChatByRange utc chatText start end =
     join_nl (filterLoop utc start end (split_lines chatText) False [])"

text \<open>
  The patterns of \<open>parseTimestampFromMediaFilename\<close>, in the order of its blocks;
  the second block tries \<open>mediaRe2a\<close> and then \<open>mediaRe2b\<close>.
\<close>

definition mediaRe1 :: regex where
  "mediaRe1 = seqs [
     Grp 1 (Seq (Lit (asc ''WhatsApp ''))
        (Grp 2 (Alt (Lit (asc ''Image'')) (Alt (Lit (asc ''Video''))
                 (Alt (Lit (asc ''Audio'')) (Lit (asc ''Document''))))))),
     Rep Space 1 None,
     Grp 3 (Rep Digit 4 (Some 4)), Lit (asc ''-''), Grp 4 (Rep Digit 2 (Some 2)), Lit (asc ''-''),
     Grp 5 (Rep Digit 2 (Some 2)),
     Rep Space 1 None, Lit (asc ''at''), Rep Space 1 None,
     Grp 6 (Rep Digit 2 (Some 2)), Lit (asc ''.''), Grp 7 (Rep Digit 2 (Some 2)), Lit (asc ''.''),
     Grp 8 (Rep Digit 2 (Some 2))]"

definition mediaRe2a :: regex where
  "mediaRe2a = seqs [
     Grp 1 (Rep Digit 4 (Some 4)), Lit (asc ''-''), Grp 2 (Rep Digit 2 (Some 2)), Lit (asc ''-''),
     Grp 3 (Rep Digit 2 (Some 2)),
     Cls (OneOf (asc '' _'')), Lit (asc ''at''), Rep (OneOf (asc '' _'')) 0 (Some 1),
     Grp 4 (Rep Digit 2 (Some 2)), Lit (asc ''.''), Grp 5 (Rep Digit 2 (Some 2)), Lit (asc ''.''),
     Grp 6 (Rep Digit 2 (Some 2))]"

definition mediaRe2b :: regex where
  "mediaRe2b = seqs [
     Grp 1 (Rep Digit 4 (Some 4)), Lit (asc ''-''), Grp 2 (Rep Digit 2 (Some 2)), Lit (asc ''-''),
     Grp 3 (Rep Digit 2 (Some 2)),
     Cls (OneOf (asc '' _'')),
     Grp 4 (Rep Digit 2 (Some 2)), Lit (asc ''.''), Grp 5 (Rep Digit 2 (Some 2)), Lit (asc ''.''),
     Grp 6 (Rep Digit 2 (Some 2))]"

definition mediaRe3 :: regex where
  "mediaRe3 = seqs [Bol,
     Grp 1 (Alt (Lit (asc ''IMG'')) (Alt (Lit (asc ''VID'')) (Alt (Lit (asc ''PTT''))
             (Alt (Lit (asc ''AUD'')) (Lit (asc ''DOC'')))))),
     Lit (asc ''-''), Grp 2 (Rep Digit 4 (Some 4)), Grp 3 (Rep Digit 2 (Some 2)),
     Grp 4 (Rep Digit 2 (Some 2)), Lit (asc ''-WA''), Rep Digit 1 None]"

definition mediaRe4 :: regex where
  "mediaRe4 = seqs [Grp 1 (Rep Digit 4 (Some 4)), Lit (asc ''-''), Grp 2 (Rep Digit 2 (Some 2)),
     Lit (asc ''-''), Grp 3 (Rep Digit 2 (Some 2))]"

definition mediaRe5 :: regex where
  "mediaRe5 = seqs [Grp 1 (Rep Digit 4 (Some 4)), Grp 2 (Rep Digit 2 (Some 2)),
     Grp 3 (Rep Digit 2 (Some 2))]"

definition parseTimestampFromMediaFilename :: "zone \<Rightarrow> jstring \<Rightarrow> jsdate option" where
  "parseTimestampFromMediaFilename utc name =
     (let base = (case pop (split_unit 47 name) of None \<Rightarrow> name | Some b \<Rightarrow> b) in
      case exec True mediaRe1 base of
        Some m \<Rightarrow>
          validOrNull (newDate utc (Number (cap m 3)) (Number (cap m 4) - 1) (Number (cap m 5))
            (Number (cap m 6)) (Number (cap m 7)) (Number (cap m 8)))
      | None \<Rightarrow>
      case (case exec True mediaRe2a base of Some m \<Rightarrow> Some m | None \<Rightarrow> exec True mediaRe2b base) of
        Some m \<Rightarrow>
          validOrNull (newDate utc (Number (cap m 1)) (Number (cap m 2) - 1) (Number (cap m 3))
            (Number (cap m 4)) (Number (cap m 5)) (Number (cap m 6)))
      | None \<Rightarrow>
      case exec True mediaRe3 base of
        Some m \<Rightarrow>
          validOrNull (newDate utc (Number (cap m 2)) (Number (cap m 3) - 1) (Number (cap m 4)) 0 0 0)
      | None \<Rightarrow>
      case exec False mediaRe4 base of
        Some m \<Rightarrow>
          validOrNull (newDate utc (Number (cap m 1)) (Number (cap m 2) - 1) (Number (cap m 3)) 0 0 0)
      | None \<Rightarrow>
      case exec False mediaRe5 base of
        Some m \<Rightarrow>
          validOrNull (newDate utc (Number (cap m 1)) (Number (cap m 2) - 1) (Number (cap m 3)) 0 0 0)
      | None \<Rightarrow> None)"

text \<open>
  An entry of the archive (\<open>JSZipObject\<close>): its name, whether it is a directory,
  its stored modification date and its bytes.
\<close>

record entry =
  entry_name :: jstring
  entry_dir :: bool
  entry_date :: "jsdate option"
  entry_data :: "nat list"

text \<open>What \<open>out.file(name, data)\<close> stores: a string or an array buffer.\<close>

datatype filedata = StringData jstring | BinaryData "nat list"

record SplitOptions =
  opt_start :: jsdate
  opt_end :: jsdate
  includeChat :: "bool option"
  includeMedia :: "bool option"
  mediaExtensions :: "jstring list option"
  chatFilenameCandidates :: "(jstring \<Rightarrow> bool) list option"

text \<open>
  \<open>DEFAULT_CHAT_CANDIDATES\<close> and the pattern \<open>/\.txt$/i\<close> of \<open>findChatFile\<close>. A
  candidate pattern given by the caller is any test on names.
\<close>

definition chatCandidateRe1 :: regex where
  "chatCandidateRe1 = seqs [Lit (asc ''_chat.txt''), Eol]"

definition chatCandidateRe2 :: regex where
  "chatCandidateRe2 = seqs [Bol, Lit (asc ''WhatsApp Chat with ''), Rep Dot 0 None,
     Lit (asc ''.txt''), Eol]"

definition DEFAULT_CHAT_CANDIDATES :: "(jstring \<Rightarrow> bool) list" where
  "DEFAULT_CHAT_CANDIDATES = [test True chatCandidateRe1, test True chatCandidateRe2]"

definition txtRe :: regex where
  "txtRe = seqs [Lit (asc ''.txt''), Eol]"

definition findChatFile :: "entry list \<Rightarrow> (jstring \<Rightarrow> bool) list \<Rightarrow> entry option" where
  "findChatFile files patterns =
     (case List.find (\<lambda>e. \<not> entry_dir e \<and> list_ex (\<lambda>rx. rx (entry_name e)) patterns) files of
        Some e \<Rightarrow> Some e
      | None \<Rightarrow>
          List.find (\<lambda>e. \<not> entry_dir e \<and> test True txtRe (entry_name e)
                        \<and> \<not> str_includes (entry_name e) (asc ''/'')) files)"

text \<open>The loop over the entries of \<open>splitZipByTimeRangeAndMedia\<close>.\<close>

fun mediaLoop :: "zone \<Rightarrow> jsdate \<Rightarrow> jsdate \<Rightarrow> jstring set \<Rightarrow> entry option \<Rightarrow> entry list
    \<Rightarrow> (jstring \<rightharpoonup> filedata) \<Rightarrow> (jstring \<rightharpoonup> filedata)" where
  "mediaLoop utc start end mediaSet chatEntry [] out = out"
| "mediaLoop utc start end mediaSet chatEntry (e # es) out =
     (if entry_dir e then mediaLoop utc start end mediaSet chatEntry es out
      else if (case chatEntry of None \<Rightarrow> False | Some c \<Rightarrow> entry_name e = entry_name c)
      then mediaLoop utc start end mediaSet chatEntry es out
      else
        (let ext = getExtension (entry_name e);
             isMedia = (case ext of None \<Rightarrow> False
                        | Some x \<Rightarrow> if x = [] then False else toLowerCase x \<in> mediaSet)
         in if \<not> isMedia then mediaLoop utc start end mediaSet chatEntry es out
            else
              (case (case parseTimestampFromMediaFilename utc (entry_name e) of
                       Some d \<Rightarrow> Some d
                     | None \<Rightarrow> entry_date e) of
                 None \<Rightarrow> mediaLoop utc start end mediaSet chatEntry es out
               | Some ts \<Rightarrow>
                   if inRange ts start end
                   then mediaLoop utc start end mediaSet chatEntry es
                          (out(entry_name e \<mapsto> BinaryData (entry_data e)))
                   else mediaLoop utc start end mediaSet chatEntry es out)))"

text \<open>
  \<open>splitZipByTimeRangeAndMedia\<close>. The archive is the list of the entries of
  \<open>zip.files\<close> in enumeration order; the keys of that object are the names, so the
  names of a real archive are distinct. \<open>decode\<close> is the library's reading of an
  entry as a string. The result is the content of \<open>out\<close>, which the source then
  compresses into a blob.
\<close>

definition splitZipByTimeRangeAndMedia :: "zone \<Rightarrow> (nat list \<Rightarrow> jstring) \<Rightarrow> entry list
    \<Rightarrow> SplitOptions \<Rightarrow> (jstring \<rightharpoonup> filedata)" where
  "splitZipByTimeRangeAndMedia utc decode zipFiles options =
     (let start = opt_start options;
          end = opt_end options;
          includeChat = (case includeChat options of None \<Rightarrow> True | Some b \<Rightarrow> b);
          includeMedia = (case includeMedia options of None \<Rightarrow> True | Some b \<Rightarrow> b);
          mediaExtensions =
            (case mediaExtensions options of None \<Rightarrow> DEFAULT_MEDIA_EXTS | Some l \<Rightarrow> l);
          chatFilenameCandidates =
            (case chatFilenameCandidates options of None \<Rightarrow> DEFAULT_CHAT_CANDIDATES | Some l \<Rightarrow> l);
          chatEntry = (if includeChat then findChatFile zipFiles chatFilenameCandidates else None);
          out = (case chatEntry of
                   Some c \<Rightarrow>
                     if includeChat
                     then [entry_name c \<mapsto>
                             StringData (filterChatByRange utc (decode (entry_data c)) start end)]
                     else Map.empty
                 | None \<Rightarrow> Map.empty)
      in if includeMedia
         then mediaLoop utc start end (set (map toLowerCase mediaExtensions)) chatEntry zipFiles out
         else out)"

section \<open>The message parser\<close>










section \<open>The chat filter in the words of the specification\<close>

text \<open>
  The filter as the specification words it. The block of line \<open>i\<close> opens at the
  nearest timestamp line at or before \<open>i\<close>; the line is kept when there is such a
  line and its timestamp is in the range.
\<close>

definition spec_blockHead :: "zone \<Rightarrow> jstring list \<Rightarrow> nat \<Rightarrow> jsdate option" where
  "spec_blockHead utc lines i =
     (case List.find (\<lambda>l. parseTimestampFromChatLine utc l \<noteq> None) (rev (take (Suc i) lines)) of
        None \<Rightarrow> None
      | Some l \<Rightarrow> parseTimestampFromChatLine utc l)"

definition spec_keeps :: "zone \<Rightarrow> jsdate \<Rightarrow> jsdate \<Rightarrow> jstring list \<Rightarrow> nat \<Rightarrow> bool" where
  "spec_keeps utc start end lines i =
     (case spec_blockHead utc lines i of None \<Rightarrow> False | Some ts \<Rightarrow> inRange ts start end)"

definition spec_filterChat :: "zone \<Rightarrow> jstring \<Rightarrow> jsdate \<Rightarrow> jsdate \<Rightarrow> jstring" where
  "spec_filterChat utc chatText start end =
     (let lines = split_lines chatText
      in join_nl (map (\<lambda>i. lines ! i) (filter (spec_keeps utc start end lines) [0 ..< length lines])))"

text \<open>The value of \<open>keepCurrentBlock\<close> after the lines \<open>ps\<close>, in the same words.\<close>

definition keepAfter :: "zone \<Rightarrow> jsdate \<Rightarrow> jsdate \<Rightarrow> jstring list \<Rightarrow> bool" where
  "keepAfter utc start end ps =
     (case List.find (\<lambda>l. parseTimestampFromChatLine utc l \<noteq> None) (rev ps) of
        None \<Rightarrow> False
      | Some l \<Rightarrow> (case parseTimestampFromChatLine utc l of
                    None \<Rightarrow> False
                  | Some ts \<Rightarrow> inRange ts start end))"

text \<open>A transcript with blocks of 1, 5 and 10 January 2024.\<close>

definition example_transcript :: jstring where
  "example_transcript =
     asc ''[01/01/2024, 09:00:00] A: one'' @ [10] @
     asc ''more one'' @ [10] @
     asc ''[05/01/2024, 10:30:00] B: five'' @ [10] @
     asc ''more five'' @ [10] @
     asc ''[10/01/2024, 11:00:00] A: ten''"

section \<open>The media filter in the words of the specification\<close>

text \<open>The test \<open>isMedia\<close> of the loop, on an entry.\<close>

definition hasMediaExtension :: "jstring set \<Rightarrow> entry \<Rightarrow> bool" where
  "hasMediaExtension mediaSet e =
     (case getExtension (entry_name e) of
        None \<Rightarrow> False
      | Some x \<Rightarrow> x \<noteq> [] \<and> toLowerCase x \<in> mediaSet)"

text \<open>
  The timestamp of an entry: the one of the file name patterns, otherwise the
  stored modification date.
\<close>

definition derivedTimestamp :: "zone \<Rightarrow> entry \<Rightarrow> jsdate option" where
  "derivedTimestamp utc e =
     (case parseTimestampFromMediaFilename utc (entry_name e) of
        Some d \<Rightarrow> Some d
      | None \<Rightarrow> entry_date e)"

definition spec_copies :: "zone \<Rightarrow> jsdate \<Rightarrow> jsdate \<Rightarrow> jstring set \<Rightarrow> entry \<Rightarrow> bool" where
  "spec_copies utc start end mediaSet e =
     (hasMediaExtension mediaSet e \<and>
      (case derivedTimestamp utc e of None \<Rightarrow> False | Some ts \<Rightarrow> inRange ts start end))"

text \<open>
  The file name patterns as a table, in the order of the specification: the device
  name with date and time, the generic date and time (with and without \<open>at\<close>),
  the device prefix with a date, and the date alone (with and without hyphens).
  Each row has the flag \<open>i\<close>, the pattern and the date that its groups give.
\<close>

definition dateTimeOf :: "nat \<Rightarrow> zone \<Rightarrow> captures \<Rightarrow> jsdate" where
  "dateTimeOf g utc m =
     newDate utc (Number (cap m g)) (Number (cap m (g + 1)) - 1) (Number (cap m (g + 2)))
       (Number (cap m (g + 3))) (Number (cap m (g + 4))) (Number (cap m (g + 5)))"

definition dateOf :: "nat \<Rightarrow> zone \<Rightarrow> captures \<Rightarrow> jsdate" where
  "dateOf g utc m =
     newDate utc (Number (cap m g)) (Number (cap m (g + 1)) - 1) (Number (cap m (g + 2))) 0 0 0"

definition spec_mediaPatterns :: "(bool \<times> regex \<times> (zone \<Rightarrow> captures \<Rightarrow> jsdate)) list" where
  "spec_mediaPatterns =
     [(True, mediaRe1, dateTimeOf 3),
      (True, mediaRe2a, dateTimeOf 1),
      (True, mediaRe2b, dateTimeOf 1),
      (True, mediaRe3, dateOf 2),
      (False, mediaRe4, dateOf 1),
      (False, mediaRe5, dateOf 1)]"

fun spec_firstMatch :: "(bool \<times> regex \<times> (zone \<Rightarrow> captures \<Rightarrow> jsdate)) list \<Rightarrow> zone \<Rightarrow> jstring
    \<Rightarrow> jsdate option" where
  "spec_firstMatch [] utc base = None"
| "spec_firstMatch ((ic, rx, date) # rows) utc base =
     (case exec ic rx base of
        Some m \<Rightarrow> validOrNull (date utc m)
      | None \<Rightarrow> spec_firstMatch rows utc base)"

text \<open>The options after the defaults of the destructuring.\<close>

definition includeChatOf :: "SplitOptions \<Rightarrow> bool" where
  "includeChatOf options = (case includeChat options of None \<Rightarrow> True | Some b \<Rightarrow> b)"

definition includeMediaOf :: "SplitOptions \<Rightarrow> bool" where
  "includeMediaOf options = (case includeMedia options of None \<Rightarrow> True | Some b \<Rightarrow> b)"

definition mediaSetOf :: "SplitOptions \<Rightarrow> jstring set" where
  "mediaSetOf options =
     set (map toLowerCase
       (case mediaExtensions options of None \<Rightarrow> DEFAULT_MEDIA_EXTS | Some l \<Rightarrow> l))"

text \<open>The entry that the splitter takes as the transcript, if any.\<close>

definition chatEntryOf :: "entry list \<Rightarrow> SplitOptions \<Rightarrow> entry option" where
  "chatEntryOf zipFiles options =
     (if includeChatOf options
      then findChatFile zipFiles
             (case chatFilenameCandidates options of None \<Rightarrow> DEFAULT_CHAT_CANDIDATES | Some l \<Rightarrow> l)
      else None)"

definition isChatEntry :: "entry option \<Rightarrow> entry \<Rightarrow> bool" where
  "isChatEntry chatEntry e =
     (case chatEntry of None \<Rightarrow> False | Some c \<Rightarrow> entry_name e = entry_name c)"

text \<open>
  An archive with the two media files of the example. The stored date of the first
  is 1 February 2024, outside the range, and the stored date of the second is
  5 January 2024, inside it: the dates of the names decide.
\<close>

definition example_kept :: entry where
  "example_kept = \<lparr>entry_name = asc ''IMG-20240105-WA0001.jpg'', entry_dir = False,
     entry_date = Some (TimeValue 1706745600000), entry_data = [255, 216, 255, 224]\<rparr>"

definition example_dropped :: entry where
  "example_dropped = \<lparr>entry_name = asc ''IMG-20240120-WA0002.jpg'', entry_dir = False,
     entry_date = Some (TimeValue 1704450600000), entry_data = [255, 216, 255, 225]\<rparr>"

definition example_zip :: "entry list" where
  "example_zip = [example_kept, example_dropped]"

definition example_options :: SplitOptions where
  "example_options = \<lparr>opt_start = newDate (\<lambda>t. t) 2024 0 3 0 0 0,
     opt_end = newDate (\<lambda>t. t) 2024 0 8 0 0 0,
     includeChat = None, includeMedia = None, mediaExtensions = None,
     chatFilenameCandidates = None\<rparr>"

definition example_options_no_media :: SplitOptions where
  "example_options_no_media = example_options\<lparr>includeMedia := Some False\<rparr>"

section \<open>Continuation lines of the message parser\<close>




section \<open>The media loader (MediaLoader.ts)\<close>

record MediaEntry =
  me_zipEntry :: entry
  me_fullPath :: jstring

text \<open>
  \<open>LoadedMedia\<close>. \<open>URL.createObjectURL\<close> returns a fresh URL at every call; the
  URLs are numbered in the order of their creation.
\<close>

record LoadedMedia =
  lm_blobUrl :: nat
  lm_filename :: jstring
  lm_type :: media_kind

text \<open>
  A promise made by \<open>loadMedia\<close> is pending, fulfilled with a \<open>LoadedMedia\<close> or
  \<open>null\<close>, or rejected.
\<close>

datatype promise_state = Pending | Fulfilled "LoadedMedia option" | Rejected

text \<open>
  The closure \<open>task\<close> made by one call of \<open>loadMedia\<close>: the promise whose
  \<open>resolve\<close> it holds, and the file name.
\<close>

datatype task = Task (task_promise: nat) (task_file: jstring)

text \<open>
  Where a started task is suspended. \<open>doLoadMedia\<close> runs without suspension up
  to the read of the entry (\<open>Reading\<close>), or returns \<open>null\<close> when nothing is found;
  after the read it has its result (\<open>Returning\<close>) or an error to throw (\<open>Throwing\<close>),
  which the task receives when its \<open>await\<close> resumes.
\<close>

datatype phase = Reading MediaEntry | Returning "LoadedMedia option" | Throwing

text \<open>
  The fields of the class, and the state of the cooperative execution around
  them: the promises made so far, the started tasks that have not finished (in the
  order of their start) and the object URLs that are alive.
\<close>

record loader =
  mediaIndex :: "(jstring \<times> MediaEntry list) list"
  loadedBlobs :: "jstring \<rightharpoonup> LoadedMedia"
  loadingPromises :: "jstring \<rightharpoonup> nat"
  activeTasks :: int
  taskQueue :: "task list"
  promises :: "nat \<rightharpoonup> promise_state"
  running :: "(task \<times> phase) list"
  nextPromise :: nat
  nextUrl :: nat
  objectUrls :: "nat set"

text \<open>\<open>private concurrencyLimit = 5\<close>; nothing assigns it.\<close>

definition concurrencyLimit :: int where
  "concurrencyLimit = 5"

definition newLoader :: loader where
  "newLoader = \<lparr>mediaIndex = [], loadedBlobs = Map.empty, loadingPromises = Map.empty,
     activeTasks = 0, taskQueue = [], promises = Map.empty, running = [],
     nextPromise = 0, nextUrl = 0, objectUrls = {}\<rparr>"

definition endsWith :: "jstring \<Rightarrow> jstring \<Rightarrow> bool" where
  "endsWith s suffix = startsWith (rev s) (rev suffix)"

text \<open>
  \<open>if (!index.has(key)) index.set(key, []); index.get(key).push(entry)\<close> on a
  \<open>Map\<close>, which keeps the order of insertion.
\<close>

definition indexPush :: "jstring \<Rightarrow> MediaEntry \<Rightarrow> (jstring \<times> MediaEntry list) list
    \<Rightarrow> (jstring \<times> MediaEntry list) list" where
  "indexPush key me index =
     (if key \<in> fst ` set index
      then map (\<lambda>(k, es). if k = key then (k, es @ [me]) else (k, es)) index
      else index @ [(key, [me])])"

text \<open>\<open>s.split('.')[0]\<close>.\<close>

definition firstPiece :: "jstring \<Rightarrow> jstring" where
  "firstPiece s = (case split_unit 46 s of [] \<Rightarrow> [] | p # _ \<Rightarrow> p)"

fun buildLoop :: "(jstring \<times> entry) list \<Rightarrow> (jstring \<times> MediaEntry list) list
    \<Rightarrow> (jstring \<times> MediaEntry list) list" where
  "buildLoop [] index = index"
| "buildLoop ((filename, zipEntry) # rest) index =
     (if \<not> entry_dir zipEntry \<and> \<not> endsWith filename (asc ''.txt'')
         \<and> \<not> endsWith filename (asc ''.py'')
      then
        (let extension = extension_of filename;
             isMediaFile = (extension \<in> set indexMediaExts)
         in if isMediaFile
            then
              (let justFilename = (case pop (split_unit 47 filename) of
                                     None \<Rightarrow> filename
                                   | Some b \<Rightarrow> if b = [] then filename else b);
                   me = \<lparr>me_zipEntry = zipEntry, me_fullPath = filename\<rparr>;
                   index1 = indexPush justFilename me index;
                   nameWithoutExt = firstPiece justFilename
               in buildLoop rest
                    (if nameWithoutExt \<noteq> justFilename
                     then indexPush nameWithoutExt me index1
                     else index1))
            else buildLoop rest index)
      else buildLoop rest index)"

definition buildMediaIndex :: "(jstring \<times> entry) list \<Rightarrow> loader \<Rightarrow> loader" where
  "buildMediaIndex fileEntries s = s\<lparr>mediaIndex := buildLoop fileEntries []\<rparr>"

text \<open>
  \<open>doLoadMedia\<close> up to its first suspension: the exact key, otherwise the first
  key of the index that contains the base of the name or whose base the name
  contains, otherwise \<open>null\<close>. Reading \<open>entries[0]\<close> of an empty list gives
  \<open>undefined\<close>, and the extraction throws.
\<close>

definition doLoadMedia :: "(jstring \<times> MediaEntry list) list \<Rightarrow> jstring \<Rightarrow> phase" where
  "doLoadMedia index filename =
     (case map_of index filename of
        Some (mediaEntry # _) \<Rightarrow> Reading mediaEntry
      | _ \<Rightarrow>
          (case List.find (\<lambda>(key, entries).
                   str_includes key (firstPiece filename) \<or> str_includes filename (firstPiece key))
                 index of
             None \<Rightarrow> Returning None
           | Some (key, []) \<Rightarrow> Throwing
           | Some (key, e # _) \<Rightarrow> Reading e))"

text \<open>A call of the closure \<open>task\<close>, up to its \<open>await\<close>.\<close>

definition startTask :: "task \<Rightarrow> loader \<Rightarrow> loader" where
  "startTask t s =
     s\<lparr>activeTasks := activeTasks s + 1,
       running := running s @ [(t, doLoadMedia (mediaIndex s) (task_file t))]\<rparr>"

definition processNextTask :: "loader \<Rightarrow> loader" where
  "processNextTask s =
     (case taskQueue s of
        [] \<Rightarrow> s
      | nextTask # rest \<Rightarrow>
          if activeTasks s < concurrencyLimit
          then startTask nextTask (s\<lparr>taskQueue := rest\<rparr>)
          else s)"

text \<open>
  What the body of \<open>loadMedia\<close> returns: the cached value or a promise, numbered
  in the order of creation. (The function is \<open>async\<close>, so the caller holds a
  promise that follows this value.)
\<close>

datatype load_result = Cached LoadedMedia | Promise nat

definition loadMedia :: "jstring \<Rightarrow> loader \<Rightarrow> load_result \<times> loader" where
  "loadMedia filename s =
     (case loadedBlobs s filename of
        Some m \<Rightarrow> (Cached m, s)
      | None \<Rightarrow>
          (case loadingPromises s filename of
             Some p \<Rightarrow> (Promise p, s)
           | None \<Rightarrow>
               (let loadingPromise = nextPromise s;
                    t = Task loadingPromise filename;
                    s1 = s\<lparr>nextPromise := loadingPromise + 1,
                           promises := (promises s)(loadingPromise \<mapsto> Pending)\<rparr>;
                    s2 = (if activeTasks s1 < concurrencyLimit
                          then startTask t s1
                          else s1\<lparr>taskQueue := taskQueue s1 @ [t]\<rparr>)
                in (Promise loadingPromise,
                    s2\<lparr>loadingPromises := (loadingPromises s2)(filename \<mapsto> loadingPromise)\<rparr>))))"

text \<open>
  The read of the entry of a task finishes, with the bytes or with an error:
  \<open>extractBlobFromEntry\<close> resumes, makes the blob URL and stores the result in
  the cache, or throws.
\<close>

definition readDone :: "nat \<Rightarrow> bool \<Rightarrow> loader \<Rightarrow> loader" where
  "readDone p ok s =
     (case List.find (\<lambda>(t, ph). task_promise t = p) (running s) of
        Some (t, Reading mediaEntry) \<Rightarrow>
          if ok
          then
            (let blobUrl = nextUrl s;
                 loadedMedia = \<lparr>lm_blobUrl = blobUrl, lm_filename = task_file t,
                                 lm_type = MediaLoader_getMediaType (task_file t)\<rparr>
             in s\<lparr>nextUrl := blobUrl + 1,
                  objectUrls := insert blobUrl (objectUrls s),
                  loadedBlobs := (loadedBlobs s)(task_file t \<mapsto> loadedMedia),
                  running := map (\<lambda>(t', ph). if task_promise t' = p
                                     then (t', Returning (Some loadedMedia)) else (t', ph))
                               (running s)\<rparr>)
          else
            s\<lparr>running := map (\<lambda>(t', ph). if task_promise t' = p then (t', Throwing) else (t', ph))
                            (running s)\<rparr>
      | _ \<Rightarrow> s)"

text \<open>
  The \<open>await\<close> of a task resumes: \<open>resolve(result)\<close>, or the \<open>catch\<close> with
  \<open>resolve(null)\<close>, and then the \<open>finally\<close> block.
\<close>

definition settle :: "nat \<Rightarrow> loader \<Rightarrow> loader" where
  "settle p s =
     (case List.find (\<lambda>(t, ph). task_promise t = p) (running s) of
        None \<Rightarrow> s
      | Some (t, Reading mediaEntry) \<Rightarrow> s
      | Some (t, ph) \<Rightarrow>
          (let result = (case ph of Returning r \<Rightarrow> r | _ \<Rightarrow> None);
               s1 = s\<lparr>promises := (promises s)(p \<mapsto> Fulfilled result)\<rparr>;
               s2 = s1\<lparr>activeTasks := activeTasks s1 - 1,
                        loadingPromises := (loadingPromises s1)(task_file t := None),
                        running := filter (\<lambda>(t', ph). task_promise t' \<noteq> p) (running s1)\<rparr>
           in processNextTask s2))"

definition revokeMedia :: "jstring \<Rightarrow> loader \<Rightarrow> loader" where
  "revokeMedia filename s =
     (case loadedBlobs s filename of
        None \<Rightarrow> s
      | Some media \<Rightarrow>
          s\<lparr>objectUrls := objectUrls s - {lm_blobUrl media},
            loadedBlobs := (loadedBlobs s)(filename := None)\<rparr>)"

definition cleanup :: "loader \<Rightarrow> loader" where
  "cleanup s =
     s\<lparr>objectUrls := objectUrls s - lm_blobUrl ` ran (loadedBlobs s),
       loadedBlobs := Map.empty,
       loadingPromises := Map.empty\<rparr>"

text \<open>
  What can happen to the loader, one step of the single thread at a time: a call
  of a public method that writes (\<open>hasMedia\<close> and \<open>getAvailableMedia\<close> only
  read), the end of the read of a task, the resumption of a task.
\<close>

datatype event =
    CallBuildMediaIndex "(jstring \<times> entry) list"
  | CallLoadMedia jstring
  | CallRevokeMedia jstring
  | CallCleanup
  | ReadDone nat bool
  | Settle nat

fun step :: "event \<Rightarrow> loader \<Rightarrow> loader" where
  "step (CallBuildMediaIndex fileEntries) s = buildMediaIndex fileEntries s"
| "step (CallLoadMedia filename) s = snd (loadMedia filename s)"
| "step (CallRevokeMedia filename) s = revokeMedia filename s"
| "step CallCleanup s = cleanup s"
| "step (ReadDone p ok) s = readDone p ok s"
| "step (Settle p) s = settle p s"

definition run :: "event list \<Rightarrow> loader \<Rightarrow> loader" where
  "run evs s = foldl (\<lambda>s ev. step ev s) s evs"

text \<open>The tasks in flight: started and not finished, or queued.\<close>

definition inFlight :: "loader \<Rightarrow> task list" where
  "inFlight s = map fst (running s) @ taskQueue s"

text \<open>\<open>cleanup\<close> is called only while no task is in flight.\<close>

fun quietCleanups :: "event list \<Rightarrow> loader \<Rightarrow> bool" where
  "quietCleanups [] s = True"
| "quietCleanups (ev # evs) s =
     ((ev = CallCleanup \<longrightarrow> inFlight s = []) \<and> quietCleanups evs (step ev s))"

section \<open>Invariants of the loader and example runs\<close>

text \<open>
  The pool as the specification describes it: the counter is the number of started
  tasks, it is at most the ceiling, tasks wait only while the pool is full, and
  the tasks in flight are in the order of their arrival (promises are numbered in
  the order of the calls that made them).
\<close>

definition poolInv :: "loader \<Rightarrow> bool" where
  "poolInv s =
     (activeTasks s = int (length (running s))
      \<and> activeTasks s \<le> concurrencyLimit
      \<and> (taskQueue s \<noteq> [] \<longrightarrow> activeTasks s = concurrencyLimit)
      \<and> sorted_wrt (<) (map task_promise (inFlight s))
      \<and> (\<forall>t \<in> set (inFlight s). task_promise t < nextPromise s))"

text \<open>The value that a resuming task passes to \<open>resolve\<close>.\<close>

definition settleResult :: "phase \<Rightarrow> LoadedMedia option" where
  "settleResult ph = (case ph of Returning r \<Rightarrow> r | _ \<Rightarrow> None)"

text \<open>Six calls for six different names on a new loader.\<close>

definition example_six :: "event list" where
  "example_six = map (\<lambda>f. CallLoadMedia (asc f))
     [''a.jpg'', ''b.jpg'', ''c.jpg'', ''d.jpg'', ''e.jpg'', ''f.jpg'']"

text \<open>
  No promise of the loader is rejected, and the promise of a task in flight is
  still pending.
\<close>

definition promiseInv :: "loader \<Rightarrow> bool" where
  "promiseInv s =
     ((\<forall>p. promises s p \<noteq> Some Rejected)
      \<and> (\<forall>t \<in> set (inFlight s). promises s (task_promise t) = Some Pending))"

text \<open>
  One task per file name: the tasks in flight have different file names, each is
  the entry of its name in \<open>loadingPromises\<close>, a cached result of a name with a
  started task is the result that this task is about to deliver, and a name with
  a queued task is not cached.
\<close>

definition flightInv :: "loader \<Rightarrow> bool" where
  "flightInv s =
     (distinct (map task_file (inFlight s))
      \<and> (\<forall>t \<in> set (inFlight s). loadingPromises s (task_file t) = Some (task_promise t))
      \<and> (\<forall>t ph m. (t, ph) \<in> set (running s) \<and> loadedBlobs s (task_file t) = Some m
            \<longrightarrow> ph = Returning (Some m))
      \<and> (\<forall>t \<in> set (taskQueue s). loadedBlobs s (task_file t) = None))"

text \<open>An archive with a photo and a clip, their index entries, and states of its runs.\<close>

definition example_photo :: entry where
  "example_photo = \<lparr>entry_name = asc ''a.jpg'', entry_dir = False, entry_date = None,
     entry_data = [255, 216, 255]\<rparr>"

definition example_clip :: entry where
  "example_clip = \<lparr>entry_name = asc ''b.mp4'', entry_dir = False, entry_date = None,
     entry_data = [0, 0, 0, 24]\<rparr>"

definition example_archive :: "(jstring \<times> entry) list" where
  "example_archive = [(asc ''a.jpg'', example_photo), (asc ''b.mp4'', example_clip)]"

definition example_photo_entry :: MediaEntry where
  "example_photo_entry = \<lparr>me_zipEntry = example_photo, me_fullPath = asc ''a.jpg''\<rparr>"

definition example_clip_entry :: MediaEntry where
  "example_clip_entry = \<lparr>me_zipEntry = example_clip, me_fullPath = asc ''b.mp4''\<rparr>"

definition example_photo_loaded :: LoadedMedia where
  "example_photo_loaded = \<lparr>lm_blobUrl = 0, lm_filename = asc ''a.jpg'', lm_type = Image\<rparr>"

definition example_loading :: loader where
  "example_loading = \<lparr>mediaIndex = buildLoop example_archive [], loadedBlobs = Map.empty,
     loadingPromises = [asc ''a.jpg'' \<mapsto> 0], activeTasks = 1, taskQueue = [],
     promises = [0 \<mapsto> Pending],
     running = [(Task 0 (asc ''a.jpg''), Reading example_photo_entry)],
     nextPromise = 1, nextUrl = 0, objectUrls = {}\<rparr>"

definition example_two_loading :: loader where
  "example_two_loading = \<lparr>mediaIndex = buildLoop example_archive [], loadedBlobs = Map.empty,
     loadingPromises = [asc ''a.jpg'' \<mapsto> 0, asc ''b.mp4'' \<mapsto> 1], activeTasks = 2,
     taskQueue = [], promises = [0 \<mapsto> Pending, 1 \<mapsto> Pending],
     running = [(Task 0 (asc ''a.jpg''), Reading example_photo_entry),
                (Task 1 (asc ''b.mp4''), Reading example_clip_entry)],
     nextPromise = 2, nextUrl = 0, objectUrls = {}\<rparr>"

section \<open>Properties\<close>

lemma asc_simps: "asc [] = []" "asc (c # cs) = of_char c # asc cs"
  by (simp_all add: asc_def)

lemmas rx_eval = exec_def test_def seqs_def asc_simps isDigit_def whiteSpace_def cap_def trim_def
  startRe_def chatRe1_def chatRe2_def chatRe3_def chatRe4_def chatRe5_def chatRe6_def
  optSeconds_def Number_def Let_def canon_def

lemmas date_eval = newDate_def MakeDay_def MakeTime_def MakeDate_def TimeClip_def DayFromYear_def
  InLeapYear_def daysBeforeMonth_def validOrNull_def isValidDate_def Let_def

lemma mod100_window:
  fixes n :: int
  assumes "0 \<le> n" and "n \<le> 99"
  shows "(1900 + n) mod 100 = n" and "(2000 + n) mod 100 = n"
proof -
  have a: "(n + 19 * 100) mod 100 = n mod 100" "(n + 20 * 100) mod 100 = n mod 100"
    by (rule mod_mult_self1)+
  from assms have b: "n mod 100 = n"
    by simp
  from a b show "(1900 + n) mod 100 = n" and "(2000 + n) mod 100 = n"
    by (simp_all add: add.commute)
qed

lemma Number_two_digits:
  "Number [a, b] = 10 * (int a - 48) + (int b - 48)"
  by (simp add: Number_def)

text \<open>
  C4. For a string of two digits, the message parser's year is 2000 plus the
  number below 50 and 1900 plus the number from 50 on, so it is the year of
  1950..2049 with these last two digits; the splitter's year is 1900 plus the
  number from 70 on and 2000 plus the number below 70, the year of 1970..2069.
\<close>

theorem two_digit_year_pivots:
  assumes "length y = 2" and "\<forall>c \<in> set y. isDigit c"
  shows "toFourDigitYear y = (if Number y < 50 then 2000 + Number y else 1900 + Number y)
       \<and> twoDigitYearToFull y = (if Number y \<ge> 70 then 1900 + Number y else 2000 + Number y)
       \<and> 0 \<le> Number y \<and> Number y \<le> 99
       \<and> 1950 \<le> toFourDigitYear y \<and> toFourDigitYear y \<le> 2049
       \<and> toFourDigitYear y mod 100 = Number y
       \<and> 1970 \<le> twoDigitYearToFull y \<and> twoDigitYearToFull y \<le> 2069
       \<and> twoDigitYearToFull y mod 100 = Number y"
proof -
  from assms(1) obtain a b where y: "y = [a, b]"
    by (cases y; cases "tl y") auto
  from assms(2) y have d: "48 \<le> a" "a \<le> 57" "48 \<le> b" "b \<le> 57"
    by (simp_all add: isDigit_def)
  have n: "Number y = 10 * (int a - 48) + (int b - 48)"
    by (simp add: y Number_two_digits)
  from d n have r: "0 \<le> Number y" "Number y \<le> 99"
    by simp_all
  from r have m: "(1900 + Number y) mod 100 = Number y" "(2000 + Number y) mod 100 = Number y"
    by (rule mod100_window)+
  show ?thesis
    using r m by (simp add: toFourDigitYear_def twoDigitYearToFull_def Let_def assms(1))
qed

theorem two_digit_year_pivots_witness:
  "toFourDigitYear (asc ''99'') = 1999 \<and> toFourDigitYear (asc ''05'') = 2005
   \<and> twoDigitYearToFull (asc ''99'') = 1999 \<and> twoDigitYearToFull (asc ''69'') = 2069
   \<and> toFourDigitYear (asc ''69'') = 1969"
proof -
  have n: "Number (asc ''99'') = 99" "Number (asc ''05'') = 5" "Number (asc ''69'') = 69"
    by (simp_all add: Number_def asc_def)
  have h: "length (asc ''99'') = 2" "\<forall>c \<in> set (asc ''99''). isDigit c"
          "length (asc ''05'') = 2" "\<forall>c \<in> set (asc ''05''). isDigit c"
          "length (asc ''69'') = 2" "\<forall>c \<in> set (asc ''69''). isDigit c"
    by (simp_all add: asc_def isDigit_def)
  have a: "toFourDigitYear (asc ''99'') = 1999" "twoDigitYearToFull (asc ''99'') = 1999"
    using two_digit_year_pivots [OF h(1) h(2)] unfolding n by simp_all
  have b: "toFourDigitYear (asc ''05'') = 2005"
    using two_digit_year_pivots [OF h(3) h(4)] unfolding n by simp_all
  have c: "toFourDigitYear (asc ''69'') = 1969" "twoDigitYearToFull (asc ''69'') = 2069"
    using two_digit_year_pivots [OF h(5) h(6)] unfolding n by simp_all
  show ?thesis using a b c by simp
qed

text \<open>
  C8 as stated fails: neither list of the code is the set of the specification.
  The index builder has no \<open>mkv\<close>.
\<close>

theorem default_media_exts_counterexample:
  "\<not> (set indexMediaExts = spec_media_exts \<and> set DEFAULT_MEDIA_EXTS = spec_media_exts)"
proof -
  have "asc ''mkv'' \<in> spec_media_exts"
    by (simp add: spec_media_exts_def spec_video_exts_def)
  moreover have "asc ''mkv'' \<notin> set indexMediaExts"
    by (simp add: indexMediaExts_def asc_simps)
  ultimately show ?thesis by blast
qed

text \<open>
  C8, amended. The index builder recognises the set of the specification without
  \<open>mkv\<close>; the splitter's default list is that set without \<open>bmp\<close>, \<open>tgs\<close>,
  \<open>webm\<close> and \<open>3gp\<close>.
\<close>

theorem default_media_exts_actual:
  "set indexMediaExts = spec_media_exts - {asc ''mkv''}
   \<and> set DEFAULT_MEDIA_EXTS = spec_media_exts - {asc ''bmp'', asc ''tgs'', asc ''webm'', asc ''3gp''}"
  by (auto simp: indexMediaExts_def DEFAULT_MEDIA_EXTS_def spec_media_exts_def spec_image_exts_def
      spec_video_exts_def spec_audio_exts_def spec_document_exts_def asc_simps)

lemma webp_is_image:
  assumes "extension_of filename = asc ''webp''"
  shows "MediaLoader_getMediaType filename = Image" and "getMediaType filename = Image"
  using assms by (simp_all add: MediaLoader_getMediaType_def getMediaType_def)

text \<open>
  C9 at \<open>sticker.webp\<close>: the extension is \<open>webp\<close> and the name contains
  \<open>sticker\<close>, and both classifiers answer \<open>Image\<close>, because \<open>webp\<close> is in the
  image list that is tested first.
\<close>

theorem sticker_webp_is_image:
  "MediaLoader_getMediaType (asc ''sticker.webp'') = Image
   \<and> getMediaType (asc ''sticker.webp'') = Image
   \<and> str_includes (asc ''sticker.webp'') (asc ''sticker'')
   \<and> extension_of (asc ''sticker.webp'') = asc ''webp''"
  by (simp add: MediaLoader_getMediaType_def getMediaType_def extension_of_def toLowerCase_def
      lowerUnit_def asc_simps)

lemma spec_keeps_keepAfter:
  "spec_keeps utc start end lines i = keepAfter utc start end (take (Suc i) lines)"
  by (simp add: spec_keeps_def spec_blockHead_def keepAfter_def split: option.splits)

lemma keepAfter_snoc:
  "keepAfter utc start end (ps @ [l]) =
     (case parseTimestampFromChatLine utc l of
        Some ts \<Rightarrow> inRange ts start end
      | None \<Rightarrow> keepAfter utc start end ps)"
  by (simp add: keepAfter_def split: option.splits)

lemma filterLoop_spec:
  "filterLoop utc start end ls (keepAfter utc start end ps) out =
     out @ map (\<lambda>i. (ps @ ls) ! i)
             (filter (spec_keeps utc start end (ps @ ls)) [length ps ..< length ps + length ls])"
proof (induction ls arbitrary: ps out)
  case Nil
  then show ?case by simp
next
  case (Cons l ls)
  have k: "spec_keeps utc start end (ps @ l # ls) (length ps) = keepAfter utc start end (ps @ [l])"
    by (simp add: spec_keeps_keepAfter)
  have u: "[length ps ..< length ps + length (l # ls)]
            = length ps # [length (ps @ [l]) ..< length (ps @ [l]) + length ls]"
    by (simp add: upt_conv_Cons del: upt_Suc)
  have ih: "filterLoop utc start end ls (keepAfter utc start end (ps @ [l])) out' =
     out' @ map (\<lambda>i. (ps @ l # ls) ! i)
             (filter (spec_keeps utc start end (ps @ l # ls))
                [length (ps @ [l]) ..< length (ps @ [l]) + length ls])" for out'
    using Cons.IH [of "ps @ [l]" out'] by simp
  show ?case
  proof (cases "parseTimestampFromChatLine utc l")
    case None
    then have s: "keepAfter utc start end (ps @ [l]) = keepAfter utc start end ps"
      by (simp add: keepAfter_snoc)
    show ?thesis
      unfolding u using None ih s k by (simp del: upt_Suc)
  next
    case (Some ts)
    then have s: "keepAfter utc start end (ps @ [l]) = inRange ts start end"
      by (simp add: keepAfter_snoc)
    show ?thesis
      unfolding u using Some ih s k by (simp add: Let_def del: upt_Suc)
  qed
qed


lemma filterChatByRange_refines:
  "filterChatByRange utc chatText start end = spec_filterChat utc chatText start end"
  using filterLoop_spec [of utc start "end" "split_lines chatText" "[]" "[]"]
  by (simp add: filterChatByRange_def spec_filterChat_def Let_def keepAfter_def)

lemma example_lines:
  "split_lines example_transcript =
     [asc ''[01/01/2024, 09:00:00] A: one'', asc ''more one'',
      asc ''[05/01/2024, 10:30:00] B: five'', asc ''more five'',
      asc ''[10/01/2024, 11:00:00] A: ten'']"
  by (simp add: example_transcript_def asc_simps)

lemma example_parse:
  "parseTimestampFromChatLine utc (asc ''[01/01/2024, 09:00:00] A: one'')
     = validOrNull (newDate utc 2024 0 1 9 0 0)"
  "parseTimestampFromChatLine utc (asc ''more one'') = None"
  "parseTimestampFromChatLine utc (asc ''[05/01/2024, 10:30:00] B: five'')
     = validOrNull (newDate utc 2024 0 5 10 30 0)"
  "parseTimestampFromChatLine utc (asc ''more five'') = None"
  "parseTimestampFromChatLine utc (asc ''[10/01/2024, 11:00:00] A: ten'')
     = validOrNull (newDate utc 2024 0 10 11 0 0)"
  by (simp_all add: parseTimestampFromChatLine_def rx_eval)

lemma example_dates:
  "newDate (\<lambda>t. t) 2024 0 1 9 0 0 = TimeValue 1704099600000"
  "newDate (\<lambda>t. t) 2024 0 3 0 0 0 = TimeValue 1704240000000"
  "newDate (\<lambda>t. t) 2024 0 5 10 30 0 = TimeValue 1704450600000"
  "newDate (\<lambda>t. t) 2024 0 8 0 0 0 = TimeValue 1704672000000"
  "newDate (\<lambda>t. t) 2024 0 10 11 0 0 = TimeValue 1704884400000"
  by (simp_all add: date_eval)

lemma example_filter:
  "filterChatByRange (\<lambda>t. t) example_transcript
      (newDate (\<lambda>t. t) 2024 0 3 0 0 0) (newDate (\<lambda>t. t) 2024 0 8 0 0 0)
     = asc ''[05/01/2024, 10:30:00] B: five'' @ [10] @ asc ''more five''"
  by (simp add: filterChatByRange_def example_lines example_parse example_dates validOrNull_def
      isValidDate_def)

text \<open>
  The same in terms of positions: line \<open>i\<close> is kept exactly when some timestamp
  line \<open>j\<close> at or before it is in the range and no timestamp line lies between
  them.
\<close>

lemma spec_keeps_block:
  assumes "i < length lines"
  shows "spec_keeps utc start end lines i =
           (\<exists>j \<le> i. \<exists>ts. parseTimestampFromChatLine utc (lines ! j) = Some ts
                \<and> inRange ts start end
                \<and> (\<forall>k. j < k \<and> k \<le> i \<longrightarrow> parseTimestampFromChatLine utc (lines ! k) = None))"
  using assms
proof (induction i)
  case 0
  then have "take (Suc 0) lines = [lines ! 0]"
    by (cases lines) simp_all
  then show ?case
    by (auto simp: spec_keeps_keepAfter keepAfter_def split: option.splits)
next
  case (Suc i)
  then have t: "take (Suc (Suc i)) lines = take (Suc i) lines @ [lines ! Suc i]"
    by (simp add: take_Suc_conv_app_nth)
  from Suc have ih: "keepAfter utc start end (take (Suc i) lines) =
           (\<exists>j \<le> i. \<exists>ts. parseTimestampFromChatLine utc (lines ! j) = Some ts
                \<and> inRange ts start end
                \<and> (\<forall>k. j < k \<and> k \<le> i \<longrightarrow> parseTimestampFromChatLine utc (lines ! k) = None))"
    by (simp add: spec_keeps_keepAfter)
  show ?case
  proof (cases "parseTimestampFromChatLine utc (lines ! Suc i)")
    case None
    have "(\<exists>j \<le> Suc i. \<exists>ts. parseTimestampFromChatLine utc (lines ! j) = Some ts
                \<and> inRange ts start end
                \<and> (\<forall>k. j < k \<and> k \<le> Suc i \<longrightarrow> parseTimestampFromChatLine utc (lines ! k) = None))
        = (\<exists>j \<le> i. \<exists>ts. parseTimestampFromChatLine utc (lines ! j) = Some ts
                \<and> inRange ts start end
                \<and> (\<forall>k. j < k \<and> k \<le> i \<longrightarrow> parseTimestampFromChatLine utc (lines ! k) = None))"
      (is "?L = ?R")
    proof
      assume ?L
      then obtain j ts where j: "j \<le> Suc i" "parseTimestampFromChatLine utc (lines ! j) = Some ts"
        "inRange ts start end"
        "\<forall>k. j < k \<and> k \<le> Suc i \<longrightarrow> parseTimestampFromChatLine utc (lines ! k) = None"
        by blast
      with None have "j \<noteq> Suc i" by auto
      with j show ?R by (intro exI [of _ j]) auto
    next
      assume ?R
      then obtain j ts where j: "j \<le> i" "parseTimestampFromChatLine utc (lines ! j) = Some ts"
        "inRange ts start end"
        "\<forall>k. j < k \<and> k \<le> i \<longrightarrow> parseTimestampFromChatLine utc (lines ! k) = None"
        by blast
      with None show ?L
        by (intro exI [of _ j]) (auto simp: le_Suc_eq)
    qed
    with None ih show ?thesis
      by (simp add: spec_keeps_keepAfter t keepAfter_snoc)
  next
    case (Some ts)
    have "(\<exists>j \<le> Suc i. \<exists>ts'. parseTimestampFromChatLine utc (lines ! j) = Some ts'
                \<and> inRange ts' start end
                \<and> (\<forall>k. j < k \<and> k \<le> Suc i \<longrightarrow> parseTimestampFromChatLine utc (lines ! k) = None))
        = inRange ts start end"
      (is "?L = ?R")
    proof
      assume ?L
      then obtain j ts' where j: "j \<le> Suc i" "parseTimestampFromChatLine utc (lines ! j) = Some ts'"
        "inRange ts' start end"
        "\<forall>k. j < k \<and> k \<le> Suc i \<longrightarrow> parseTimestampFromChatLine utc (lines ! k) = None"
        by blast
      have "j = Suc i"
      proof (rule ccontr)
        assume "j \<noteq> Suc i"
        with j(1) have "j < Suc i" by simp
        with j(4) have "parseTimestampFromChatLine utc (lines ! Suc i) = None" by simp
        with Some show False by simp
      qed
      with j Some show ?R by simp
    next
      assume ?R
      with Some show ?L by (intro exI [of _ "Suc i"]) auto
    qed
    with Some show ?thesis
      by (simp add: spec_keeps_keepAfter t keepAfter_snoc)
  qed
qed

text \<open>
  C1. For every transcript and every range, the output of the chat filter is the
  join of exactly the lines that the specification keeps, in their order: a line
  is kept when the nearest timestamp line at or before it exists and its timestamp
  \<open>t\<close> has \<open>start \<le> t \<le> end\<close>, the bounds included. On the transcript with blocks
  of 1, 5 and 10 January 2024 and the range from 3 to 8 January, only the block of
  5 January is left.
\<close>

theorem filterChatByRange_blocks:
  "filterChatByRange utc chatText start end = spec_filterChat utc chatText start end
   \<and> inRange (TimeValue t) (TimeValue s) (TimeValue e) = (s \<le> t \<and> t \<le> e)
   \<and> filterChatByRange (\<lambda>t. t) example_transcript
        (newDate (\<lambda>t. t) 2024 0 3 0 0 0) (newDate (\<lambda>t. t) 2024 0 8 0 0 0)
      = asc ''[05/01/2024, 10:30:00] B: five'' @ [10] @ asc ''more five''"
  using filterChatByRange_refines example_filter by auto

theorem filterChatByRange_blocks_witness:
  "spec_filterChat (\<lambda>t. t) example_transcript
      (newDate (\<lambda>t. t) 2024 0 3 0 0 0) (newDate (\<lambda>t. t) 2024 0 8 0 0 0)
     = asc ''[05/01/2024, 10:30:00] B: five'' @ [10] @ asc ''more five''
   \<and> inRange (TimeValue 1704240000000) (TimeValue 1704240000000) (TimeValue 1704672000000)
   \<and> inRange (TimeValue 1704672000000) (TimeValue 1704240000000) (TimeValue 1704672000000)
   \<and> \<not> inRange (TimeValue 1704672000001) (TimeValue 1704240000000) (TimeValue 1704672000000)"
proof -
  note t = filterChatByRange_blocks [of "\<lambda>t. t" example_transcript
      "newDate (\<lambda>t. t) 2024 0 3 0 0 0" "newDate (\<lambda>t. t) 2024 0 8 0 0 0"]
  show ?thesis
    unfolding t [THEN conjunct1, symmetric]
    by (simp add: t [THEN conjunct2, THEN conjunct2])
qed

lemma dashed_pm_line_parse:
  "parseTimestampFromChatLine utc (asc ''1/5/2024, 3:30 PM - Bob: hi'')
     = validOrNull (newDate utc 2024 4 1 3 30 0)"
  by (simp add: parseTimestampFromChatLine_def rx_eval)

lemma lit_match_caseless:
  "\<forall>p \<in> set l. \<not> (65 \<le> p \<and> p \<le> 90) \<and> \<not> (97 \<le> p \<and> p \<le> 122) \<Longrightarrow>
   lit_match True l s = lit_match False l s"
proof (induction l arbitrary: s)
  case Nil
  then show ?case by simp
next
  case (Cons p ps)
  show ?case
  proof (cases s)
    case Nil
    then show ?thesis by simp
  next
    case (Cons c cs)
    from Cons.prems have "(canon p = canon c) = (p = c)"
      by (auto simp: canon_def)
    with Cons Cons.IH Cons.prems show ?thesis by simp
  qed
qed

lemma rmatch_caseless:
  "caseless r \<Longrightarrow> rmatch True r st = rmatch False r st"
  by (induction r arbitrary: st) (auto simp: lit_match_caseless cong: map_cong)

lemma concat_map_concat:
  "concat (map (\<lambda>x. concat (map f (g x))) zs) = concat (map f (concat (map g zs)))"
  by (induction zs) simp_all

lemma rmatch_seqs_append:
  "rmatch ic (seqs (xs @ ys)) st = concat (map (rmatch ic (seqs ys)) (rmatch ic (seqs xs) st))"
proof (induction xs arbitrary: st)
  case Nil
  then show ?case by (simp add: seqs_def)
next
  case (Cons x xs)
  have e: "rmatch ic (seqs (xs @ ys)) =
             (\<lambda>st'. concat (map (rmatch ic (seqs ys)) (rmatch ic (seqs xs) st')))"
    by (rule ext) (rule Cons.IH)
  have "rmatch ic (seqs ((x # xs) @ ys)) st =
          concat (map (rmatch ic (seqs (xs @ ys))) (rmatch ic x st))"
    by (simp add: seqs_def)
  also have "\<dots> = concat (map (rmatch ic (seqs ys)) (concat (map (rmatch ic (seqs xs)) (rmatch ic x st))))"
    unfolding e by (rule concat_map_concat)
  also have "\<dots> = concat (map (rmatch ic (seqs ys)) (rmatch ic (seqs (x # xs)) st))"
    by (simp add: seqs_def)
  finally show ?case .
qed

lemma search_Bol_later:
  "0 < p \<Longrightarrow> search ic (Seq Bol r) p s = None"
  by (induction s arbitrary: p) simp_all

lemma exec_Bol:
  "(exec ic (seqs (Bol # rs)) s \<noteq> None) = (rmatch ic (seqs rs) (0, s, []) \<noteq> [])"
  by (cases s) (simp_all add: exec_def seqs_def search_Bol_later split: list.splits)

lemma dashedPrefix_caseless: "caseless (seqs dashedPrefix)"
  by (simp add: dashedPrefix_def seqs_def asc_simps)

lemma chatRe2_prefix:
  "chatRe2 = seqs (Bol # dashedPrefix @ [Opt (Seq (Lit (asc '':'')) (Grp 6 (Rep Digit 2 (Some 2))))])"
  by (simp add: chatRe2_def dashedPrefix_def)

lemma chatRe3_prefix:
  "chatRe3 = seqs (Bol # dashedPrefix @
     [Rep Space 0 None, Grp 6 (Alt (Lit (asc ''AM'')) (Lit (asc ''PM'')))])"
  by (simp add: chatRe3_def dashedPrefix_def)

lemma ampm_pattern_shadowed:
  assumes "exec True chatRe3 l \<noteq> None"
  shows "exec False chatRe2 l \<noteq> None"
proof -
  from assms have "rmatch True (seqs (dashedPrefix @
     [Rep Space 0 None, Grp 6 (Alt (Lit (asc ''AM'')) (Lit (asc ''PM'')))])) (0, l, []) \<noteq> []"
    unfolding chatRe3_prefix exec_Bol .
  then obtain st where "st \<in> set (rmatch True (seqs dashedPrefix) (0, l, []))"
    unfolding rmatch_seqs_append by (cases "rmatch True (seqs dashedPrefix) (0, l, [])") auto
  then have st: "st \<in> set (rmatch False (seqs dashedPrefix) (0, l, []))"
    by (simp add: rmatch_caseless [OF dashedPrefix_caseless])
  have "rmatch False (seqs [Opt (Seq (Lit (asc '':'')) (Grp 6 (Rep Digit 2 (Some 2))))]) st \<noteq> []"
    by (simp add: seqs_def)
  with st have "rmatch False (seqs (dashedPrefix @
     [Opt (Seq (Lit (asc '':'')) (Grp 6 (Rep Digit 2 (Some 2))))])) (0, l, []) \<noteq> []"
    unfolding rmatch_seqs_append by auto
  then show ?thesis
    unfolding chatRe2_prefix exec_Bol .
qed

lemma dashedPrefix_starts_with_digit:
  assumes "rmatch ic (seqs dashedPrefix) (0, l, []) \<noteq> []"
  shows "\<exists>c cs. l = c # cs \<and> isDigit c"
proof (cases l)
  case Nil
  with assms show ?thesis
    by (simp add: dashedPrefix_def seqs_def)
next
  case (Cons c cs)
  show ?thesis
  proof (cases "isDigit c")
    case True
    with Cons show ?thesis by simp
  next
    case False
    with assms Cons show ?thesis
      by (simp add: dashedPrefix_def seqs_def)
  qed
qed

lemma digit_line_not_bracketed:
  assumes "isDigit c"
  shows "test False startRe (c # cs)" and "exec False chatRe1 (c # cs) = None"
proof -
  from assms have n: "c \<noteq> 91"
    by (auto simp: isDigit_def)
  from assms show "test False startRe (c # cs)"
    by (simp add: test_def exec_def startRe_def seqs_def asc_simps)
  from n have "rmatch False chatRe1 (0, c # cs, []) = []"
    by (simp add: chatRe1_def seqs_def asc_simps)
  moreover have "search False chatRe1 (Suc 0) cs = None"
    unfolding chatRe1_def seqs_def foldr.simps o_apply by (rule search_Bol_later) simp
  ultimately show "exec False chatRe1 (c # cs) = None"
    by (simp add: exec_def)
qed

lemma ampm_marker_ignored:
  assumes "exec True chatRe3 (trim line) \<noteq> None"
  shows "\<exists>m. exec False chatRe2 (trim line) = Some m
           \<and> parseTimestampFromChatLine utc line =
               validOrNull (newDate utc
                 (if length (cap m 3) = 2 then twoDigitYearToFull (cap m 3) else Number (cap m 3))
                 (Number (cap m 2) - 1) (Number (cap m 1)) (Number (cap m 4)) (Number (cap m 5))
                 (optSeconds m 6))"
proof -
  from ampm_pattern_shadowed [OF assms] obtain m where m: "exec False chatRe2 (trim line) = Some m"
    by auto
  from assms have "rmatch True (seqs (dashedPrefix @
     [Rep Space 0 None, Grp 6 (Alt (Lit (asc ''AM'')) (Lit (asc ''PM'')))])) (0, trim line, []) \<noteq> []"
    unfolding chatRe3_prefix exec_Bol .
  then have "rmatch True (seqs dashedPrefix) (0, trim line, []) \<noteq> []"
    unfolding rmatch_seqs_append by (cases "rmatch True (seqs dashedPrefix) (0, trim line, [])") auto
  from dashedPrefix_starts_with_digit [OF this] obtain c cs
    where l: "trim line = c # cs" and d: "isDigit c"
    by auto
  from digit_line_not_bracketed [OF d, of cs] l
  have s: "test False startRe (trim line)" "exec False chatRe1 (trim line) = None"
    by simp_all
  have "parseTimestampFromChatLine utc line =
               validOrNull (newDate utc
                 (if length (cap m 3) = 2 then twoDigitYearToFull (cap m 3) else Number (cap m 3))
                 (Number (cap m 2) - 1) (Number (cap m 1)) (Number (cap m 4)) (Number (cap m 5))
                 (optSeconds m 6))"
    by (simp add: parseTimestampFromChatLine_def Let_def s m)
  with m show ?thesis by blast
qed

text \<open>
  C10 at the dashed line \<open>1/5/2024, 3:30 PM - Bob: hi\<close>: the pattern without
  the marker, tried first, matches every line that the AM/PM pattern matches, so
  the result is 1 May 2024 at 03:30, not a time converted to 15:30.
\<close>

theorem dashed_pm_line_not_converted:
  "parseTimestampFromChatLine utc (asc ''1/5/2024, 3:30 PM - Bob: hi'')
     = validOrNull (newDate utc 2024 4 1 3 30 0)
   \<and> parseTimestampFromChatLine (\<lambda>t. t) (asc ''1/5/2024, 3:30 PM - Bob: hi'')
     = Some (TimeValue 1714534200000)
   \<and> newDate (\<lambda>t. t) 2024 4 1 15 30 0 = TimeValue 1714577400000
   \<and> newDate (\<lambda>t. t) 2024 0 5 15 30 0 = TimeValue 1704468600000"
  by (simp add: dashed_pm_line_parse) (simp add: date_eval)

lemma mediaLoop_step:
  "mediaLoop utc start end mediaSet chatEntry (x # es) out =
     mediaLoop utc start end mediaSet chatEntry es
       (if \<not> entry_dir x \<and> \<not> isChatEntry chatEntry x \<and> spec_copies utc start end mediaSet x
        then out(entry_name x \<mapsto> BinaryData (entry_data x))
        else out)"
  by (auto simp: Let_def isChatEntry_def spec_copies_def hasMediaExtension_def
      derivedTimestamp_def split: option.splits)

lemma mediaLoop_other:
  "n \<notin> entry_name ` set es \<Longrightarrow>
   mediaLoop utc start end mediaSet chatEntry es out n = out n"
proof (induction es arbitrary: out)
  case Nil
  then show ?case by simp
next
  case (Cons x es)
  then show ?case
    by (simp add: mediaLoop_step del: mediaLoop.simps(2))
qed

lemma mediaLoop_entry:
  assumes "distinct (map entry_name es)" and "e \<in> set es"
  shows "mediaLoop utc start end mediaSet chatEntry es out (entry_name e) =
           (if \<not> entry_dir e \<and> \<not> isChatEntry chatEntry e \<and> spec_copies utc start end mediaSet e
            then Some (BinaryData (entry_data e))
            else out (entry_name e))"
  using assms
proof (induction es arbitrary: out)
  case Nil
  then show ?case by simp
next
  case (Cons x es)
  show ?case
  proof (cases "x = e")
    case True
    with Cons.prems have "entry_name e \<notin> entry_name ` set es"
      by auto
    then have r: "mediaLoop utc start end mediaSet chatEntry es out' (entry_name e) = out' (entry_name e)"
      for out'
      by (rule mediaLoop_other)
    show ?thesis
      using True by (simp add: mediaLoop_step r del: mediaLoop.simps(2))
  next
    case False
    with Cons.prems have m: "e \<in> set es" and d: "distinct (map entry_name es)"
      and ne: "entry_name x \<noteq> entry_name e"
      by auto
    show ?thesis
      using ne by (simp add: mediaLoop_step Cons.IH [OF d m] del: mediaLoop.simps(2))
  qed
qed

lemma findChatFile_in:
  "findChatFile files patterns = Some c \<Longrightarrow> c \<in> set files"
  by (auto simp: findChatFile_def find_Some_iff split: option.splits)

lemmas media_eval = parseTimestampFromMediaFilename_def mediaRe1_def mediaRe2a_def mediaRe2b_def
  mediaRe3_def mediaRe4_def mediaRe5_def getExtension_def extRe_def

lemma example_names:
  "parseTimestampFromMediaFilename utc (asc ''IMG-20240105-WA0001.jpg'')
     = validOrNull (newDate utc 2024 0 5 0 0 0)"
  "parseTimestampFromMediaFilename utc (asc ''IMG-20240120-WA0002.jpg'')
     = validOrNull (newDate utc 2024 0 20 0 0 0)"
  "getExtension (asc ''IMG-20240105-WA0001.jpg'') = Some (asc ''jpg'')"
  "getExtension (asc ''IMG-20240120-WA0002.jpg'') = Some (asc ''jpg'')"
  by (simp_all add: media_eval rx_eval)

lemma example_no_chat:
  "findChatFile example_zip DEFAULT_CHAT_CANDIDATES = None"
  by (simp add: findChatFile_def example_zip_def example_kept_def example_dropped_def
      DEFAULT_CHAT_CANDIDATES_def chatCandidateRe1_def chatCandidateRe2_def txtRe_def rx_eval)

lemma example_jpg:
  "toLowerCase (asc ''jpg'') \<in> set (map toLowerCase DEFAULT_MEDIA_EXTS)"
  "asc ''jpg'' \<noteq> []"
  by (simp_all add: DEFAULT_MEDIA_EXTS_def toLowerCase_def lowerUnit_def asc_simps)

lemma example_media_dates:
  "newDate (\<lambda>t. t) 2024 0 5 0 0 0 = TimeValue 1704412800000"
  "newDate (\<lambda>t. t) 2024 0 20 0 0 0 = TimeValue 1705708800000"
  by (simp_all add: date_eval)

lemma example_copies:
  "spec_copies (\<lambda>t. t) (newDate (\<lambda>t. t) 2024 0 3 0 0 0) (newDate (\<lambda>t. t) 2024 0 8 0 0 0)
     (set (map toLowerCase DEFAULT_MEDIA_EXTS)) example_kept"
  "\<not> spec_copies (\<lambda>t. t) (newDate (\<lambda>t. t) 2024 0 3 0 0 0) (newDate (\<lambda>t. t) 2024 0 8 0 0 0)
     (set (map toLowerCase DEFAULT_MEDIA_EXTS)) example_dropped"
  using example_jpg
  by (simp_all add: spec_copies_def hasMediaExtension_def derivedTimestamp_def example_kept_def
      example_dropped_def example_names example_media_dates example_dates validOrNull_def
      isValidDate_def del: set_map)

lemma media_patterns_in_order:
  "parseTimestampFromMediaFilename utc name =
     spec_firstMatch spec_mediaPatterns utc
       (case pop (split_unit 47 name) of None \<Rightarrow> name | Some b \<Rightarrow> b)"
  by (simp add: parseTimestampFromMediaFilename_def spec_mediaPatterns_def dateTimeOf_def
      dateOf_def Let_def numeral_eq_Suc split: option.splits)

text \<open>
  C2 as stated fails when media inclusion is switched off: with
  \<open>includeMedia = false\<close> the entry \<open>IMG-20240105-WA0001.jpg\<close> has a media
  extension and a timestamp inside the range, and is not copied.
\<close>

theorem splitZip_media_counterexample:
  "\<not> entry_dir example_kept
   \<and> \<not> isChatEntry (chatEntryOf example_zip example_options_no_media) example_kept
   \<and> spec_copies (\<lambda>t. t) (opt_start example_options_no_media) (opt_end example_options_no_media)
        (mediaSetOf example_options_no_media) example_kept
   \<and> splitZipByTimeRangeAndMedia (\<lambda>t. t) (\<lambda>b. b) example_zip example_options_no_media
        (entry_name example_kept) = None"
proof -
  have c: "chatEntryOf example_zip example_options_no_media = None"
    by (simp add: chatEntryOf_def includeChatOf_def example_options_no_media_def
        example_options_def example_no_chat)
  have a: "spec_copies (\<lambda>t. t) (opt_start example_options_no_media)
        (opt_end example_options_no_media) (mediaSetOf example_options_no_media) example_kept"
    using example_copies(1)
    by (simp add: example_options_no_media_def example_options_def mediaSetOf_def del: set_map)
  have b: "splitZipByTimeRangeAndMedia (\<lambda>t. t) (\<lambda>b. b) example_zip example_options_no_media
        (entry_name example_kept) = None"
    by (simp add: splitZipByTimeRangeAndMedia_def example_options_no_media_def
        example_options_def example_no_chat)
  show ?thesis
    using a b c by (simp add: isChatEntry_def example_kept_def)
qed

text \<open>
  C2, amended. When media inclusion is on (the default), an entry that is not a
  directory and not the transcript is copied under its name with its bytes exactly
  when its extension, lower-cased, is in the lower-cased extension list and its
  timestamp (from the file name patterns in their order, otherwise the stored
  date) exists and lies in the range; otherwise, and always when media inclusion is
  off, the output has no entry of that name.
\<close>

theorem splitZip_media_copy:
  assumes "distinct (map entry_name zipFiles)"
    and "e \<in> set zipFiles"
    and "\<not> entry_dir e"
    and "\<not> isChatEntry (chatEntryOf zipFiles options) e"
  shows "splitZipByTimeRangeAndMedia utc decode zipFiles options (entry_name e) =
           (if includeMediaOf options
               \<and> spec_copies utc (opt_start options) (opt_end options) (mediaSetOf options) e
            then Some (BinaryData (entry_data e))
            else None)"
proof -
  let ?chat = "chatEntryOf zipFiles options"
  let ?out = "case ?chat of
                Some c \<Rightarrow>
                  if includeChatOf options
                  then [entry_name c \<mapsto>
                          StringData (filterChatByRange utc (decode (entry_data c))
                            (opt_start options) (opt_end options))]
                  else Map.empty
              | None \<Rightarrow> Map.empty"
  have o: "?out (entry_name e) = None"
    using assms(4) by (auto simp: isChatEntry_def split: option.splits)
  have s: "splitZipByTimeRangeAndMedia utc decode zipFiles options =
             (if includeMediaOf options
              then mediaLoop utc (opt_start options) (opt_end options) (mediaSetOf options) ?chat
                     zipFiles ?out
              else ?out)"
    by (simp add: splitZipByTimeRangeAndMedia_def Let_def chatEntryOf_def includeChatOf_def
        includeMediaOf_def mediaSetOf_def cong: option.case_cong if_cong)
  show ?thesis
    unfolding s using o assms(3,4) mediaLoop_entry [OF assms(1,2), of utc _ _ _ ?chat ?out]
    by simp
qed

theorem splitZip_media_copy_witness:
  "splitZipByTimeRangeAndMedia (\<lambda>t. t) (\<lambda>b. b) example_zip example_options
       (asc ''IMG-20240105-WA0001.jpg'') = Some (BinaryData [255, 216, 255, 224])
   \<and> splitZipByTimeRangeAndMedia (\<lambda>t. t) (\<lambda>b. b) example_zip example_options
       (asc ''IMG-20240120-WA0002.jpg'') = None"
proof -
  have d: "distinct (map entry_name example_zip)"
    by (simp add: example_zip_def example_kept_def example_dropped_def asc_simps)
  have m: "example_kept \<in> set example_zip" "example_dropped \<in> set example_zip"
    by (simp_all add: example_zip_def)
  have n: "\<not> entry_dir example_kept" "\<not> entry_dir example_dropped"
    by (simp_all add: example_kept_def example_dropped_def)
  have c: "chatEntryOf example_zip example_options = None"
    by (simp add: chatEntryOf_def includeChatOf_def example_options_def example_no_chat)
  have i: "\<not> isChatEntry (chatEntryOf example_zip example_options) example_kept"
          "\<not> isChatEntry (chatEntryOf example_zip example_options) example_dropped"
    by (simp_all add: c isChatEntry_def)
  have o: "includeMediaOf example_options"
          "opt_start example_options = newDate (\<lambda>t. t) 2024 0 3 0 0 0"
          "opt_end example_options = newDate (\<lambda>t. t) 2024 0 8 0 0 0"
          "mediaSetOf example_options = set (map toLowerCase DEFAULT_MEDIA_EXTS)"
    by (simp_all add: includeMediaOf_def mediaSetOf_def example_options_def del: set_map)
  have k: "entry_name example_kept = asc ''IMG-20240105-WA0001.jpg''"
          "entry_data example_kept = [255, 216, 255, 224]"
          "entry_name example_dropped = asc ''IMG-20240120-WA0002.jpg''"
    by (simp_all add: example_kept_def example_dropped_def)
  show ?thesis
    using splitZip_media_copy [OF d m(1) n(1) i(1), of "\<lambda>t. t" "\<lambda>b. b"]
      splitZip_media_copy [OF d m(2) n(2) i(2), of "\<lambda>t. t" "\<lambda>b. b"]
    by (simp add: o k example_copies del: set_map)
qed














subsection \<open>The media loader\<close>

lemma poolInv_newLoader: "poolInv newLoader"
  by (simp add: poolInv_def newLoader_def inFlight_def concurrencyLimit_def)

lemma poolInv_cong:
  assumes "poolInv s"
    and "activeTasks s' = activeTasks s" and "map fst (running s') = map fst (running s)"
    and "taskQueue s' = taskQueue s" and "nextPromise s' = nextPromise s"
  shows "poolInv s'"
proof -
  from assms(3) have l: "length (running s') = length (running s)"
    by (metis length_map)
  have f: "inFlight s' = inFlight s"
    by (simp add: inFlight_def assms(3,4))
  show ?thesis
    using assms(1) unfolding poolInv_def f l assms(2,4,5) .
qed

lemma map_fst_phase:
  "map fst (map (\<lambda>(t', ph). if P t' then (t', f t' ph) else (t', ph)) r) = map fst r"
  by (induction r) auto

lemma poolInv_buildMediaIndex: "poolInv s \<Longrightarrow> poolInv (buildMediaIndex es s)"
  by (erule poolInv_cong) (simp_all add: buildMediaIndex_def)

lemma poolInv_revokeMedia: "poolInv s \<Longrightarrow> poolInv (revokeMedia f s)"
  by (erule poolInv_cong) (simp_all add: revokeMedia_def split: option.splits)

lemma poolInv_cleanup: "poolInv s \<Longrightarrow> poolInv (cleanup s)"
  by (erule poolInv_cong) (simp_all add: cleanup_def)

lemma readDone_tasks: "map fst (running (readDone p ok s)) = map fst (running s)"
  by (simp add: readDone_def Let_def map_fst_phase [where f = "\<lambda>t ph. X" for X]
      split: option.splits prod.splits phase.splits)

lemma readDone_pool:
  "activeTasks (readDone p ok s) = activeTasks s"
  "taskQueue (readDone p ok s) = taskQueue s"
  "nextPromise (readDone p ok s) = nextPromise s"
  by (simp_all add: readDone_def Let_def split: option.splits prod.splits phase.splits)

lemma poolInv_readDone: "poolInv s \<Longrightarrow> poolInv (readDone p ok s)"
  by (erule poolInv_cong) (simp_all add: readDone_tasks readDone_pool)

lemma loadMedia_cached:
  "loadedBlobs s f = Some m \<Longrightarrow> loadMedia f s = (Cached m, s)"
  by (simp add: loadMedia_def)

lemma loadMedia_coalesced:
  "loadedBlobs s f = None \<Longrightarrow> loadingPromises s f = Some p \<Longrightarrow> loadMedia f s = (Promise p, s)"
  by (simp add: loadMedia_def)

lemma loadMedia_started:
  assumes "loadedBlobs s f = None" and "loadingPromises s f = None"
    and "activeTasks s < concurrencyLimit"
  shows "loadMedia f s =
           (Promise (nextPromise s),
            s\<lparr>nextPromise := nextPromise s + 1,
              promises := (promises s)(nextPromise s \<mapsto> Pending),
              activeTasks := activeTasks s + 1,
              running := running s @
                [(Task (nextPromise s) f, doLoadMedia (mediaIndex s) f)],
              loadingPromises := (loadingPromises s)(f \<mapsto> nextPromise s)\<rparr>)"
  using assms by (simp add: loadMedia_def Let_def startTask_def)

lemma loadMedia_queued:
  assumes "loadedBlobs s f = None" and "loadingPromises s f = None"
    and "\<not> activeTasks s < concurrencyLimit"
  shows "loadMedia f s =
           (Promise (nextPromise s),
            s\<lparr>nextPromise := nextPromise s + 1,
              promises := (promises s)(nextPromise s \<mapsto> Pending),
              taskQueue := taskQueue s @ [Task (nextPromise s) f],
              loadingPromises := (loadingPromises s)(f \<mapsto> nextPromise s)\<rparr>)"
  using assms by (simp add: loadMedia_def Let_def)

lemma poolInv_loadMedia:
  assumes "poolInv s"
  shows "poolInv (snd (loadMedia f s))"
proof (cases "loadedBlobs s f")
  case (Some m)
  with assms show ?thesis by (simp add: loadMedia_cached)
next
  case None
  show ?thesis
  proof (cases "loadingPromises s f")
    case (Some p)
    with None assms show ?thesis by (simp add: loadMedia_coalesced)
  next
    case lp: None
    show ?thesis
    proof (cases "activeTasks s < concurrencyLimit")
      case True
      with assms have q: "taskQueue s = []"
        by (auto simp: poolInv_def)
      from assms True q show ?thesis
        unfolding loadMedia_started [OF None lp True]
        by (fastforce simp: poolInv_def inFlight_def sorted_wrt_append less_Suc_eq)
    next
      case False
      from assms False show ?thesis
        unfolding loadMedia_queued [OF None lp False]
        by (fastforce simp: poolInv_def inFlight_def sorted_wrt_append less_Suc_eq)
    qed
  qed
qed

lemma find_task:
  "List.find (\<lambda>(t, ph). task_promise t = p) r = Some (t, ph) \<Longrightarrow>
     (t, ph) \<in> set r \<and> task_promise t = p"
  by (induction r) (auto split: if_splits)

lemma filter_promises:
  "map (task_promise \<circ> fst) (filter (\<lambda>(t', ph). task_promise t' \<noteq> p) r) =
     filter (\<lambda>q. q \<noteq> p) (map (task_promise \<circ> fst) r)"
  by (induction r) auto

lemma length_filter_one:
  "distinct xs \<Longrightarrow> p \<in> set xs \<Longrightarrow> Suc (length (filter (\<lambda>q. q \<noteq> p) xs)) = length xs"
proof (induction xs)
  case Nil
  then show ?case by simp
next
  case (Cons x xs)
  show ?case
  proof (cases "x = p")
    case True
    with Cons.prems have "filter (\<lambda>q. q \<noteq> p) xs = xs"
      by (auto intro: filter_True)
    with True show ?thesis by simp
  next
    case False
    with Cons show ?thesis by simp
  qed
qed

lemma settle_idle:
  "List.find (\<lambda>(t, ph). task_promise t = p) (running s) = None \<Longrightarrow> settle p s = s"
  "List.find (\<lambda>(t, ph). task_promise t = p) (running s) = Some (t, Reading me) \<Longrightarrow> settle p s = s"
  by (simp_all add: settle_def)

lemma settle_done:
  assumes "List.find (\<lambda>(t, ph). task_promise t = p) (running s) = Some (t, ph)"
    and "\<forall>me. ph \<noteq> Reading me"
  shows "settle p s =
           processNextTask
             (s\<lparr>promises := (promises s)(p \<mapsto> Fulfilled (settleResult ph)),
                activeTasks := activeTasks s - 1,
                loadingPromises := (loadingPromises s)(task_file t := None),
                running := filter (\<lambda>(t', ph). task_promise t' \<noteq> p) (running s)\<rparr>)"
  using assms by (cases ph) (simp_all add: settle_def settleResult_def Let_def)

lemma processNextTask_empty:
  "taskQueue s = [] \<Longrightarrow> processNextTask s = s"
  by (simp add: processNextTask_def)

lemma processNextTask_start:
  "taskQueue s = n # rest \<Longrightarrow> activeTasks s < concurrencyLimit \<Longrightarrow>
   processNextTask s =
     s\<lparr>taskQueue := rest, activeTasks := activeTasks s + 1,
       running := running s @ [(n, doLoadMedia (mediaIndex s) (task_file n))]\<rparr>"
  by (simp add: processNextTask_def startTask_def)

lemma poolInv_settle:
  assumes "poolInv s"
  shows "poolInv (settle p s)"
proof (cases "List.find (\<lambda>(t, ph). task_promise t = p) (running s)")
  case None
  with assms show ?thesis by (simp add: settle_idle)
next
  case (Some a)
  obtain t ph where a: "a = (t, ph)" by (cases a)
  show ?thesis
  proof (cases "\<exists>me. ph = Reading me")
    case True
    with Some a assms show ?thesis by (auto simp: settle_idle)
  next
    case False
    then have nr: "\<forall>me. ph \<noteq> Reading me" by simp
    let ?xs = "map (task_promise \<circ> fst) (running s)"
    let ?r' = "filter (\<lambda>(t', ph). task_promise t' \<noteq> p) (running s)"
    from assms have srt: "sorted_wrt (<) (?xs @ map task_promise (taskQueue s))"
      by (simp add: poolInv_def inFlight_def)
    then have "distinct (?xs @ map task_promise (taskQueue s))"
      by (simp add: strict_sorted_iff)
    then have dx: "distinct ?xs" by simp
    from find_task [OF Some [unfolded a]] have px: "p \<in> set ?xs"
      by force
    have "length (map (task_promise \<circ> fst) ?r') = length (filter (\<lambda>q. q \<noteq> p) ?xs)"
      by (simp only: filter_promises)
    with length_filter_one [OF dx px] have len: "Suc (length ?r') = length (running s)"
      by simp
    have srt': "sorted_wrt (<) (map (task_promise \<circ> fst) ?r' @ map task_promise (taskQueue s))"
      using srt unfolding filter_promises by (auto simp: sorted_wrt_append sorted_wrt_filter)
    have bnd: "\<forall>t' \<in> set (map fst ?r') \<union> set (taskQueue s). task_promise t' < nextPromise s"
      using assms by (auto simp: poolInv_def inFlight_def)
    from assms have act: "activeTasks s = int (length (running s))"
      "activeTasks s \<le> concurrencyLimit"
      "taskQueue s \<noteq> [] \<longrightarrow> activeTasks s = concurrencyLimit"
      unfolding poolInv_def by blast+
    show ?thesis
    proof (cases "taskQueue s")
      case Nil
      show ?thesis
        unfolding settle_done [OF Some [unfolded a] nr]
        using Nil len srt' bnd act
        by (simp add: processNextTask_empty poolInv_def inFlight_def)
    next
      case (Cons n rest)
      show ?thesis
        unfolding settle_done [OF Some [unfolded a] nr]
        using Cons len srt' bnd act
        by (simp add: processNextTask_start poolInv_def inFlight_def sorted_wrt_append)
    qed
  qed
qed

lemma poolInv_step: "poolInv s \<Longrightarrow> poolInv (step ev s)"
  by (cases ev)
     (simp_all add: poolInv_buildMediaIndex poolInv_loadMedia poolInv_revokeMedia
        poolInv_cleanup poolInv_readDone poolInv_settle)

lemma run_snoc: "run (evs @ [ev]) s = step ev (run evs s)"
  by (simp add: run_def)

lemma poolInv_run: "poolInv s \<Longrightarrow> poolInv (run evs s)"
  by (induction evs rule: rev_induct) (simp_all add: run_snoc poolInv_step, simp add: run_def)

lemma find_task_unique:
  "distinct (map (task_promise \<circ> fst) r) \<Longrightarrow> (t, ph) \<in> set r \<Longrightarrow>
   List.find (\<lambda>(t', ph). task_promise t' = task_promise t) r = Some (t, ph)"
  by (induction r) force+

lemma poolInv_distinct:
  "poolInv s \<Longrightarrow> distinct (map (task_promise \<circ> fst) (running s))"
proof -
  assume "poolInv s"
  then have "sorted_wrt (<) (map (task_promise \<circ> fst) (running s) @ map task_promise (taskQueue s))"
    by (simp add: poolInv_def inFlight_def)
  then have "distinct (map (task_promise \<circ> fst) (running s) @ map task_promise (taskQueue s))"
    by (simp add: strict_sorted_iff)
  then show ?thesis by simp
qed

lemma settle_running:
  assumes "poolInv s" and "(t, ph) \<in> set (running s)" and "\<forall>me. ph \<noteq> Reading me"
  shows "settle (task_promise t) s =
           processNextTask
             (s\<lparr>promises := (promises s)(task_promise t \<mapsto> Fulfilled (settleResult ph)),
                activeTasks := activeTasks s - 1,
                loadingPromises := (loadingPromises s)(task_file t := None),
                running := filter (\<lambda>(t', ph). task_promise t' \<noteq> task_promise t) (running s)\<rparr>)"
  using settle_done [OF find_task_unique [OF poolInv_distinct [OF assms(1)] assms(2)] assms(3)] .

lemma settle_running_effect:
  assumes "poolInv s" and "(t, ph) \<in> set (running s)" and "\<forall>me. ph \<noteq> Reading me"
  shows "taskQueue s = [] \<Longrightarrow>
           settle (task_promise t) s =
             s\<lparr>promises := (promises s)(task_promise t \<mapsto> Fulfilled (settleResult ph)),
               activeTasks := activeTasks s - 1,
               loadingPromises := (loadingPromises s)(task_file t := None),
               running := filter (\<lambda>(t', ph). task_promise t' \<noteq> task_promise t) (running s)\<rparr>"
    and "taskQueue s = n # rest \<Longrightarrow>
           settle (task_promise t) s =
             s\<lparr>promises := (promises s)(task_promise t \<mapsto> Fulfilled (settleResult ph)),
               loadingPromises := (loadingPromises s)(task_file t := None),
               taskQueue := rest,
               running := filter (\<lambda>(t', ph). task_promise t' \<noteq> task_promise t) (running s)
                            @ [(n, doLoadMedia (mediaIndex s) (task_file n))]\<rparr>"
proof -
  from assms(1) have le: "activeTasks s \<le> concurrencyLimit"
    unfolding poolInv_def by blast
  show "taskQueue s = [] \<Longrightarrow>
           settle (task_promise t) s =
             s\<lparr>promises := (promises s)(task_promise t \<mapsto> Fulfilled (settleResult ph)),
               activeTasks := activeTasks s - 1,
               loadingPromises := (loadingPromises s)(task_file t := None),
               running := filter (\<lambda>(t', ph). task_promise t' \<noteq> task_promise t) (running s)\<rparr>"
    unfolding settle_running [OF assms] by (simp add: processNextTask_empty)
  show "taskQueue s = n # rest \<Longrightarrow>
           settle (task_promise t) s =
             s\<lparr>promises := (promises s)(task_promise t \<mapsto> Fulfilled (settleResult ph)),
               loadingPromises := (loadingPromises s)(task_file t := None),
               taskQueue := rest,
               running := filter (\<lambda>(t', ph). task_promise t' \<noteq> task_promise t) (running s)
                            @ [(n, doLoadMedia (mediaIndex s) (task_file n))]\<rparr>"
    unfolding settle_running [OF assms] using le by (simp add: processNextTask_start)
qed

text \<open>
  C6. In every state that the loader reaches, by any calls and completions in any
  order, the counter is the number of started tasks and is at most the ceiling of
  5; tasks wait only while the pool is full; the tasks in flight, started ones
  before queued ones, are in the order of their arrival. A call that needs a new
  task at the ceiling puts it at the end of the queue and starts nothing, below the
  ceiling it starts it at once; when a started task completes, with a result or
  with an error, the head of the queue is started and leaves the queue.
\<close>

theorem pool_ceiling_fifo:
  assumes "s = run evs newLoader"
  shows "activeTasks s = int (length (running s))
       \<and> int (length (running s)) \<le> concurrencyLimit \<and> concurrencyLimit = 5
       \<and> (taskQueue s \<noteq> [] \<longrightarrow> int (length (running s)) = concurrencyLimit)
       \<and> sorted_wrt (<) (map task_promise (inFlight s))
       \<and> (loadedBlobs s f = None \<and> loadingPromises s f = None
            \<and> int (length (running s)) = concurrencyLimit \<longrightarrow>
              taskQueue (step (CallLoadMedia f) s) = taskQueue s @ [Task (nextPromise s) f]
              \<and> running (step (CallLoadMedia f) s) = running s)
       \<and> (loadedBlobs s f = None \<and> loadingPromises s f = None
            \<and> int (length (running s)) < concurrencyLimit \<longrightarrow>
              taskQueue (step (CallLoadMedia f) s) = []
              \<and> running (step (CallLoadMedia f) s)
                  = running s @ [(Task (nextPromise s) f, doLoadMedia (mediaIndex s) f)])
       \<and> ((t, ph) \<in> set (running s) \<and> (\<forall>me. ph \<noteq> Reading me) \<longrightarrow>
            (case taskQueue s of
               [] \<Rightarrow>
                 taskQueue (step (Settle (task_promise t)) s) = []
                 \<and> running (step (Settle (task_promise t)) s)
                     = filter (\<lambda>(t', ph). task_promise t' \<noteq> task_promise t) (running s)
             | n # rest \<Rightarrow>
                 taskQueue (step (Settle (task_promise t)) s) = rest
                 \<and> running (step (Settle (task_promise t)) s)
                     = filter (\<lambda>(t', ph). task_promise t' \<noteq> task_promise t) (running s)
                       @ [(n, doLoadMedia (mediaIndex s) (task_file n))]))"
proof -
  have inv: "poolInv s"
    unfolding assms by (rule poolInv_run [OF poolInv_newLoader])
  then have a: "activeTasks s = int (length (running s))"
    and b: "activeTasks s \<le> concurrencyLimit"
    and c: "taskQueue s \<noteq> [] \<longrightarrow> activeTasks s = concurrencyLimit"
    and d: "sorted_wrt (<) (map task_promise (inFlight s))"
    unfolding poolInv_def by blast+
  have e: "loadedBlobs s f = None \<and> loadingPromises s f = None
            \<and> int (length (running s)) = concurrencyLimit \<longrightarrow>
              taskQueue (step (CallLoadMedia f) s) = taskQueue s @ [Task (nextPromise s) f]
              \<and> running (step (CallLoadMedia f) s) = running s"
    using a by (auto simp: loadMedia_queued)
  have g: "loadedBlobs s f = None \<and> loadingPromises s f = None
            \<and> int (length (running s)) < concurrencyLimit \<longrightarrow>
              taskQueue (step (CallLoadMedia f) s) = []
              \<and> running (step (CallLoadMedia f) s)
                  = running s @ [(Task (nextPromise s) f, doLoadMedia (mediaIndex s) f)]"
    using a c by (auto simp: loadMedia_started)
  have h: "(t, ph) \<in> set (running s) \<and> (\<forall>me. ph \<noteq> Reading me) \<longrightarrow>
            (case taskQueue s of
               [] \<Rightarrow>
                 taskQueue (step (Settle (task_promise t)) s) = []
                 \<and> running (step (Settle (task_promise t)) s)
                     = filter (\<lambda>(t', ph). task_promise t' \<noteq> task_promise t) (running s)
             | n # rest \<Rightarrow>
                 taskQueue (step (Settle (task_promise t)) s) = rest
                 \<and> running (step (Settle (task_promise t)) s)
                     = filter (\<lambda>(t', ph). task_promise t' \<noteq> task_promise t) (running s)
                       @ [(n, doLoadMedia (mediaIndex s) (task_file n))])"
    using settle_running_effect [OF inv, of t ph]
    by (auto split: list.splits)
  from a b c d e g h show ?thesis
    by (simp add: concurrencyLimit_def)
qed

lemma example_six_state:
  "running (run example_six newLoader) =
     [(Task 0 (asc ''a.jpg''), Returning None), (Task 1 (asc ''b.jpg''), Returning None),
      (Task 2 (asc ''c.jpg''), Returning None), (Task 3 (asc ''d.jpg''), Returning None),
      (Task 4 (asc ''e.jpg''), Returning None)]"
  "taskQueue (run example_six newLoader) = [Task 5 (asc ''f.jpg'')]"
  "mediaIndex (run example_six newLoader) = []"
  by (simp_all add: example_six_def run_def newLoader_def loadMedia_def startTask_def
      doLoadMedia_def concurrencyLimit_def Let_def asc_simps)

theorem pool_ceiling_fifo_witness:
  "length (running (run example_six newLoader)) = 5
   \<and> taskQueue (run example_six newLoader) = [Task 5 (asc ''f.jpg'')]
   \<and> taskQueue (step (Settle 0) (run example_six newLoader)) = []
   \<and> map fst (running (step (Settle 0) (run example_six newLoader))) =
       [Task 1 (asc ''b.jpg''), Task 2 (asc ''c.jpg''), Task 3 (asc ''d.jpg''),
        Task 4 (asc ''e.jpg''), Task 5 (asc ''f.jpg'')]"
proof -
  note t = pool_ceiling_fifo [of "run example_six newLoader" example_six
      "asc ''f.jpg''" "Task 0 (asc ''a.jpg'')" "Returning None", OF refl]
  have m: "(Task 0 (asc ''a.jpg''), Returning None) \<in> set (running (run example_six newLoader))"
    by (simp add: example_six_state)
  from t m have
    "taskQueue (step (Settle (task_promise (Task 0 (asc ''a.jpg'')))) (run example_six newLoader)) = []
     \<and> running (step (Settle (task_promise (Task 0 (asc ''a.jpg'')))) (run example_six newLoader))
        = filter (\<lambda>(t', ph). task_promise t' \<noteq> task_promise (Task 0 (asc ''a.jpg'')))
            (running (run example_six newLoader))
          @ [(Task 5 (asc ''f.jpg''),
              doLoadMedia (mediaIndex (run example_six newLoader)) (task_file (Task 5 (asc ''f.jpg''))))]"
    by (simp add: example_six_state(2))
  then show ?thesis
    by (simp add: example_six_state)
qed

lemma promiseInv_newLoader: "promiseInv newLoader"
  by (simp add: promiseInv_def newLoader_def inFlight_def)

lemma promiseInv_cong:
  assumes "promiseInv s"
    and "promises s' = promises s" and "map fst (running s') = map fst (running s)"
    and "taskQueue s' = taskQueue s"
  shows "promiseInv s'"
proof -
  have f: "inFlight s' = inFlight s"
    by (simp add: inFlight_def assms(3,4))
  show ?thesis
    using assms(1) unfolding promiseInv_def f assms(2) .
qed

lemma readDone_promises: "promises (readDone p ok s) = promises s"
  by (simp add: readDone_def Let_def split: option.splits prod.splits phase.splits)

lemma promiseInv_loadMedia:
  assumes "poolInv s" and "promiseInv s"
  shows "promiseInv (snd (loadMedia f s))"
proof (cases "loadedBlobs s f")
  case (Some m)
  with assms show ?thesis by (simp add: loadMedia_cached)
next
  case None
  show ?thesis
  proof (cases "loadingPromises s f")
    case (Some p)
    with None assms show ?thesis by (simp add: loadMedia_coalesced)
  next
    case lp: None
    from assms(1) have bnd: "\<forall>t \<in> set (inFlight s). task_promise t < nextPromise s"
      unfolding poolInv_def by blast
    show ?thesis
    proof (cases "activeTasks s < concurrencyLimit")
      case True
      from assms(2) bnd show ?thesis
        unfolding loadMedia_started [OF None lp True]
        by (fastforce simp: promiseInv_def inFlight_def)
    next
      case False
      from assms(2) bnd show ?thesis
        unfolding loadMedia_queued [OF None lp False]
        by (fastforce simp: promiseInv_def inFlight_def)
    qed
  qed
qed

lemma promiseInv_settle:
  assumes "poolInv s" and "promiseInv s"
  shows "promiseInv (settle p s)"
proof (cases "List.find (\<lambda>(t, ph). task_promise t = p) (running s)")
  case None
  with assms show ?thesis by (simp add: settle_idle)
next
  case (Some a)
  obtain t ph where a: "a = (t, ph)" by (cases a)
  from find_task [OF Some [unfolded a]] have m: "(t, ph) \<in> set (running s)"
    and p: "task_promise t = p"
    by simp_all
  show ?thesis
  proof (cases "\<exists>me. ph = Reading me")
    case True
    with Some a assms show ?thesis by (auto simp: settle_idle)
  next
    case False
    then have nr: "\<forall>me. ph \<noteq> Reading me" by simp
    from assms(1) have "sorted_wrt (<) (map (task_promise \<circ> fst) (running s) @ map task_promise (taskQueue s))"
      by (simp add: poolInv_def inFlight_def)
    then have "distinct (map (task_promise \<circ> fst) (running s) @ map task_promise (taskQueue s))"
      by (simp add: strict_sorted_iff)
    then have "set (map (task_promise \<circ> fst) (running s)) \<inter> set (map task_promise (taskQueue s)) = {}"
      by simp
    moreover from m have "task_promise t \<in> set (map (task_promise \<circ> fst) (running s))"
      by force
    ultimately have "task_promise t \<notin> set (map task_promise (taskQueue s))"
      by blast
    then have q: "\<forall>n \<in> set (taskQueue s). task_promise n \<noteq> p"
      unfolding p [symmetric] by (metis image_eqI set_map)
    show ?thesis
    proof (cases "taskQueue s")
      case Nil
      show ?thesis
        unfolding p [symmetric] settle_running_effect(1) [OF assms(1) m nr Nil]
        using assms(2) Nil
        by (auto simp: promiseInv_def inFlight_def)
    next
      case (Cons n rest)
      show ?thesis
        unfolding p [symmetric] settle_running_effect(2) [OF assms(1) m nr Cons]
        using assms(2) Cons q p
        by (auto simp: promiseInv_def inFlight_def)
    qed
  qed
qed

lemma promiseInv_step: "poolInv s \<Longrightarrow> promiseInv s \<Longrightarrow> promiseInv (step ev s)"
proof (cases ev)
  case (CallBuildMediaIndex es)
  assume "promiseInv s"
  then show ?thesis
    unfolding CallBuildMediaIndex by (rule promiseInv_cong) (simp_all add: buildMediaIndex_def)
next
  case (CallLoadMedia f)
  assume "poolInv s" "promiseInv s"
  then show ?thesis
    unfolding CallLoadMedia by (simp add: promiseInv_loadMedia)
next
  case (CallRevokeMedia f)
  assume "promiseInv s"
  then show ?thesis
    unfolding CallRevokeMedia
    by (rule promiseInv_cong) (simp_all add: revokeMedia_def split: option.splits)
next
  case CallCleanup
  assume "promiseInv s"
  then show ?thesis
    unfolding CallCleanup by (rule promiseInv_cong) (simp_all add: cleanup_def)
next
  case (ReadDone p ok)
  assume "promiseInv s"
  then show ?thesis
    unfolding ReadDone
    by (rule promiseInv_cong) (simp_all add: readDone_promises readDone_tasks readDone_pool)
next
  case (Settle p)
  assume "poolInv s" "promiseInv s"
  then show ?thesis
    unfolding Settle by (simp add: promiseInv_settle)
qed

lemma promiseInv_run: "poolInv s \<Longrightarrow> promiseInv s \<Longrightarrow> promiseInv (run evs s)"
proof (induction evs rule: rev_induct)
  case Nil
  then show ?case by (simp add: run_def)
next
  case (snoc ev evs)
  then show ?case
    by (simp add: run_snoc promiseInv_step poolInv_run)
qed

lemma same_promise_same_task:
  assumes "distinct (map (task_promise \<circ> fst) r)" and "x \<in> set r" and "y \<in> set r"
    and "task_promise (fst x) = task_promise (fst y)"
  shows "x = y"
proof -
  from assms(1) have "inj_on (task_promise \<circ> fst) (set r)"
    by (simp add: distinct_map)
  from inj_onD [OF this, of x y] assms(2,3,4) show ?thesis
    by simp
qed

lemma readDone_failed:
  assumes "poolInv s" and "(t, Reading me) \<in> set (running s)"
  shows "readDone (task_promise t) False s =
           s\<lparr>running := map (\<lambda>(t', ph). if task_promise t' = task_promise t
                                then (t', Throwing) else (t', ph)) (running s)\<rparr>"
  using find_task_unique [OF poolInv_distinct [OF assms(1)] assms(2)]
  by (simp add: readDone_def)

lemma readDone_failed_effect:
  assumes "poolInv s" and "(t, Reading me) \<in> set (running s)"
  shows "(t, Throwing) \<in> set (running (readDone (task_promise t) False s))"
    and "\<forall>x \<in> set (running s). fst x \<noteq> t \<longrightarrow> x \<in> set (running (readDone (task_promise t) False s))"
proof -
  define g :: "task \<times> phase \<Rightarrow> task \<times> phase"
    where "g = (\<lambda>(t', ph). if task_promise t' = task_promise t then (t', Throwing) else (t', ph))"
  have r: "running (readDone (task_promise t) False s) = map g (running s)"
    by (simp add: readDone_failed [OF assms] g_def)
  have "g (t, Reading me) \<in> set (map g (running s))"
    using assms(2) by auto
  moreover have "g (t, Reading me) = (t, Throwing)"
    by (simp add: g_def)
  ultimately show "(t, Throwing) \<in> set (running (readDone (task_promise t) False s))"
    by (simp add: r)
  show "\<forall>x \<in> set (running s). fst x \<noteq> t \<longrightarrow> x \<in> set (running (readDone (task_promise t) False s))"
  proof (intro ballI impI)
    fix x assume x: "x \<in> set (running s)" and n: "fst x \<noteq> t"
    have "task_promise (fst x) \<noteq> task_promise t"
    proof
      assume "task_promise (fst x) = task_promise t"
      then have "x = (t, Reading me)"
        using same_promise_same_task [OF poolInv_distinct [OF assms(1)] x assms(2)] by simp
      with n show False by simp
    qed
    then have "g x = x"
      by (auto simp: g_def split: prod.splits)
    moreover have "g x \<in> set (map g (running s))"
      using x by auto
    ultimately show "x \<in> set (running (readDone (task_promise t) False s))"
      by (simp add: r)
  qed
qed

lemma settle_others:
  assumes "poolInv s" and "(t, ph) \<in> set (running s)"
  shows "\<forall>x \<in> set (running s). fst x \<noteq> t \<longrightarrow>
           x \<in> set (filter (\<lambda>(t', ph). task_promise t' \<noteq> task_promise t) (running s))"
proof (intro ballI impI)
  fix x assume x: "x \<in> set (running s)" and n: "fst x \<noteq> t"
  have "task_promise (fst x) \<noteq> task_promise t"
  proof
    assume "task_promise (fst x) = task_promise t"
    then have "x = (t, ph)"
      using same_promise_same_task [OF poolInv_distinct [OF assms(1)] x assms(2)] by simp
    with n show False by simp
  qed
  then have "case x of (t', ph) \<Rightarrow> task_promise t' \<noteq> task_promise t"
    by (auto split: prod.splits)
  with x show "x \<in> set (filter (\<lambda>(t', ph). task_promise t' \<noteq> task_promise t) (running s))"
    by simp
qed

lemma queue_other_promise:
  assumes "poolInv s" and "(t, ph) \<in> set (running s)" and "n \<in> set (taskQueue s)"
  shows "task_promise n \<noteq> task_promise t"
proof -
  from assms(1) have "sorted_wrt (<) (map (task_promise \<circ> fst) (running s) @ map task_promise (taskQueue s))"
    by (simp add: poolInv_def inFlight_def)
  then have "distinct (map (task_promise \<circ> fst) (running s) @ map task_promise (taskQueue s))"
    by (simp add: strict_sorted_iff)
  then have "set (map (task_promise \<circ> fst) (running s)) \<inter> set (map task_promise (taskQueue s)) = {}"
    by simp
  moreover from assms(2) have "task_promise t \<in> set (map (task_promise \<circ> fst) (running s))"
    by force
  moreover from assms(3) have "task_promise n \<in> set (map task_promise (taskQueue s))"
    by simp
  ultimately show ?thesis
    by (metis disjoint_iff)
qed

text \<open>
  C7. In every reachable state no promise of the loader is rejected. When the
  read of a task fails, only that task changes (it is about to throw). When that
  task resumes, its promise, pending until then, is fulfilled with \<open>null\<close>; the
  entry of its name leaves \<open>loadingPromises\<close>; the task leaves the pool and the
  counter is again the number of started tasks; the head of the queue, if any, is
  started; the cache, the other promises, the other entries of
  \<open>loadingPromises\<close> and the other started tasks stay as they were.
\<close>

theorem extraction_failure_contained:
  assumes "s = run evs newLoader"
  shows "(\<forall>p. promises s p \<noteq> Some Rejected)
       \<and> ((t, Reading me) \<in> set (running s) \<longrightarrow>
            (let s' = step (ReadDone (task_promise t) False) s in
               (t, Throwing) \<in> set (running s')
               \<and> (\<forall>x \<in> set (running s). fst x \<noteq> t \<longrightarrow> x \<in> set (running s'))
               \<and> promises s' = promises s \<and> loadedBlobs s' = loadedBlobs s
               \<and> loadingPromises s' = loadingPromises s
               \<and> activeTasks s' = activeTasks s \<and> taskQueue s' = taskQueue s))
       \<and> ((t, Throwing) \<in> set (running s) \<longrightarrow>
            (let s' = step (Settle (task_promise t)) s in
               promises s (task_promise t) = Some Pending
               \<and> promises s' (task_promise t) = Some (Fulfilled None)
               \<and> (\<forall>p. p \<noteq> task_promise t \<longrightarrow> promises s' p = promises s p)
               \<and> loadingPromises s' (task_file t) = None
               \<and> (\<forall>f. f \<noteq> task_file t \<longrightarrow> loadingPromises s' f = loadingPromises s f)
               \<and> loadedBlobs s' = loadedBlobs s
               \<and> t \<notin> fst ` set (running s')
               \<and> (\<forall>x \<in> set (running s). fst x \<noteq> t \<longrightarrow> x \<in> set (running s'))
               \<and> activeTasks s' = int (length (running s'))
               \<and> (case taskQueue s of
                     [] \<Rightarrow> taskQueue s' = [] \<and> activeTasks s' = activeTasks s - 1
                   | n # rest \<Rightarrow>
                       taskQueue s' = rest \<and> activeTasks s' = activeTasks s
                       \<and> (n, doLoadMedia (mediaIndex s) (task_file n)) \<in> set (running s'))))"
proof -
  have inv: "poolInv s"
    unfolding assms by (rule poolInv_run [OF poolInv_newLoader])
  have pinv: "promiseInv s"
    unfolding assms by (rule promiseInv_run [OF poolInv_newLoader promiseInv_newLoader])
  from pinv have a: "\<forall>p. promises s p \<noteq> Some Rejected"
    unfolding promiseInv_def by blast
  have b: "(t, Reading me) \<in> set (running s) \<longrightarrow>
            (let s' = step (ReadDone (task_promise t) False) s in
               (t, Throwing) \<in> set (running s')
               \<and> (\<forall>x \<in> set (running s). fst x \<noteq> t \<longrightarrow> x \<in> set (running s'))
               \<and> promises s' = promises s \<and> loadedBlobs s' = loadedBlobs s
               \<and> loadingPromises s' = loadingPromises s
               \<and> activeTasks s' = activeTasks s \<and> taskQueue s' = taskQueue s)"
  proof
    assume m: "(t, Reading me) \<in> set (running s)"
    show "let s' = step (ReadDone (task_promise t) False) s in
               (t, Throwing) \<in> set (running s')
               \<and> (\<forall>x \<in> set (running s). fst x \<noteq> t \<longrightarrow> x \<in> set (running s'))
               \<and> promises s' = promises s \<and> loadedBlobs s' = loadedBlobs s
               \<and> loadingPromises s' = loadingPromises s
               \<and> activeTasks s' = activeTasks s \<and> taskQueue s' = taskQueue s"
      using readDone_failed_effect [OF inv m]
      by (simp add: Let_def) (simp add: readDone_failed [OF inv m])
  qed
  have c: "(t, Throwing) \<in> set (running s) \<longrightarrow>
            (let s' = step (Settle (task_promise t)) s in
               promises s (task_promise t) = Some Pending
               \<and> promises s' (task_promise t) = Some (Fulfilled None)
               \<and> (\<forall>p. p \<noteq> task_promise t \<longrightarrow> promises s' p = promises s p)
               \<and> loadingPromises s' (task_file t) = None
               \<and> (\<forall>f. f \<noteq> task_file t \<longrightarrow> loadingPromises s' f = loadingPromises s f)
               \<and> loadedBlobs s' = loadedBlobs s
               \<and> t \<notin> fst ` set (running s')
               \<and> (\<forall>x \<in> set (running s). fst x \<noteq> t \<longrightarrow> x \<in> set (running s'))
               \<and> activeTasks s' = int (length (running s'))
               \<and> (case taskQueue s of
                     [] \<Rightarrow> taskQueue s' = [] \<and> activeTasks s' = activeTasks s - 1
                   | n # rest \<Rightarrow>
                       taskQueue s' = rest \<and> activeTasks s' = activeTasks s
                       \<and> (n, doLoadMedia (mediaIndex s) (task_file n)) \<in> set (running s')))"
  proof
    assume m: "(t, Throwing) \<in> set (running s)"
    have nr: "\<forall>me. Throwing \<noteq> Reading me" by simp
    from pinv m have pend: "promises s (task_promise t) = Some Pending"
      unfolding promiseInv_def inFlight_def by force
    have inv': "poolInv (settle (task_promise t) s)"
      by (rule poolInv_settle [OF inv])
    then have cnt: "activeTasks (settle (task_promise t) s) = int (length (running (settle (task_promise t) s)))"
      unfolding poolInv_def by blast
    note oth = settle_others [OF inv m]
    show "let s' = step (Settle (task_promise t)) s in
               promises s (task_promise t) = Some Pending
               \<and> promises s' (task_promise t) = Some (Fulfilled None)
               \<and> (\<forall>p. p \<noteq> task_promise t \<longrightarrow> promises s' p = promises s p)
               \<and> loadingPromises s' (task_file t) = None
               \<and> (\<forall>f. f \<noteq> task_file t \<longrightarrow> loadingPromises s' f = loadingPromises s f)
               \<and> loadedBlobs s' = loadedBlobs s
               \<and> t \<notin> fst ` set (running s')
               \<and> (\<forall>x \<in> set (running s). fst x \<noteq> t \<longrightarrow> x \<in> set (running s'))
               \<and> activeTasks s' = int (length (running s'))
               \<and> (case taskQueue s of
                     [] \<Rightarrow> taskQueue s' = [] \<and> activeTasks s' = activeTasks s - 1
                   | n # rest \<Rightarrow>
                       taskQueue s' = rest \<and> activeTasks s' = activeTasks s
                       \<and> (n, doLoadMedia (mediaIndex s) (task_file n)) \<in> set (running s'))"
    proof (cases "taskQueue s")
      case Nil
      show ?thesis
        using pend cnt oth
        by (simp add: Let_def) (auto simp: settle_running_effect(1) [OF inv m nr Nil] Nil settleResult_def)
    next
      case (Cons n rest)
      then have "n \<in> set (taskQueue s)" by simp
      from queue_other_promise [OF inv m this] have ne: "n \<noteq> t" by auto
      show ?thesis
        using pend cnt oth ne
        by (simp add: Let_def) (auto simp: settle_running_effect(2) [OF inv m nr Cons] Cons settleResult_def)
    qed
  qed
  from a b c show ?thesis by blast
qed

lemma flightInv_newLoader: "flightInv newLoader"
  by (simp add: flightInv_def newLoader_def inFlight_def)

lemma flightInv_idle:
  "running s = [] \<Longrightarrow> taskQueue s = [] \<Longrightarrow> flightInv s"
  by (simp add: flightInv_def inFlight_def)

lemma flightInv_same_file:
  assumes "flightInv s" and "t \<in> set (inFlight s)" and "t' \<in> set (inFlight s)"
    and "task_file t = task_file t'"
  shows "t = t'"
proof -
  from assms(1) have "inj_on task_file (set (inFlight s))"
    by (simp add: flightInv_def distinct_map)
  from inj_onD [OF this assms(4) assms(2) assms(3)] show ?thesis .
qed

lemma flightInv_buildMediaIndex: "flightInv s \<Longrightarrow> flightInv (buildMediaIndex es s)"
  by (simp add: flightInv_def inFlight_def buildMediaIndex_def)

lemma flightInv_revokeMedia: "flightInv s \<Longrightarrow> flightInv (revokeMedia f s)"
  by (auto simp: flightInv_def inFlight_def revokeMedia_def split: option.splits)

lemma flightInv_cleanup: "inFlight s = [] \<Longrightarrow> flightInv (cleanup s)"
  by (simp add: flightInv_def inFlight_def cleanup_def)

lemma flightInv_loadMedia:
  assumes "flightInv s"
  shows "flightInv (snd (loadMedia f s))"
proof (cases "loadedBlobs s f")
  case (Some m)
  with assms show ?thesis by (simp add: loadMedia_cached)
next
  case None
  show ?thesis
  proof (cases "loadingPromises s f")
    case (Some p)
    with None assms show ?thesis by (simp add: loadMedia_coalesced)
  next
    case lp: None
    from assms lp have fresh: "\<forall>t \<in> set (inFlight s). task_file t \<noteq> f"
      by (auto simp: flightInv_def)
    show ?thesis
    proof (cases "activeTasks s < concurrencyLimit")
      case True
      from assms None fresh show ?thesis
        unfolding loadMedia_started [OF None lp True]
        by (auto simp: flightInv_def inFlight_def)
    next
      case False
      from assms None fresh show ?thesis
        unfolding loadMedia_queued [OF None lp False]
        by (auto simp: flightInv_def inFlight_def)
    qed
  qed
qed

lemma readDone_idle:
  "List.find (\<lambda>(t, ph). task_promise t = p) (running s) = None \<Longrightarrow> readDone p ok s = s"
  "List.find (\<lambda>(t, ph). task_promise t = p) (running s) = Some (t, Returning r) \<Longrightarrow>
     readDone p ok s = s"
  "List.find (\<lambda>(t, ph). task_promise t = p) (running s) = Some (t, Throwing) \<Longrightarrow>
     readDone p ok s = s"
  by (simp_all add: readDone_def)

lemma flightInv_readDone:
  assumes "poolInv s" and "flightInv s"
  shows "flightInv (readDone p ok s)"
proof (cases "List.find (\<lambda>(t, ph). task_promise t = p) (running s)")
  case None
  with assms show ?thesis by (simp add: readDone_idle)
next
  case (Some a)
  obtain t ph where a: "a = (t, ph)" by (cases a)
  from find_task [OF Some [unfolded a]] have m: "(t, ph) \<in> set (running s)"
    and p: "task_promise t = p"
    by simp_all
  show ?thesis
  proof (cases ph)
    case (Returning r)
    with Some a assms show ?thesis by (simp add: readDone_idle)
  next
    case Throwing
    with Some a assms show ?thesis by (simp add: readDone_idle)
  next
    case (Reading me)
    from assms(2) have f0: "distinct (map task_file (inFlight s))"
      and f1: "\<forall>t \<in> set (inFlight s). loadingPromises s (task_file t) = Some (task_promise t)"
      and f2: "\<forall>t ph m. (t, ph) \<in> set (running s) \<and> loadedBlobs s (task_file t) = Some m
            \<longrightarrow> ph = Returning (Some m)"
      and f3: "\<forall>t \<in> set (taskQueue s). loadedBlobs s (task_file t) = None"
      unfolding flightInv_def by blast+
    from m have tin: "t \<in> set (inFlight s)"
      by (force simp: inFlight_def)
    from f2 m Reading have nc: "loadedBlobs s (task_file t) = None"
      by (cases "loadedBlobs s (task_file t)") auto
    define ph' where "ph' = (if ok
        then Returning (Some \<lparr>lm_blobUrl = nextUrl s, lm_filename = task_file t,
               lm_type = MediaLoader_getMediaType (task_file t)\<rparr>)
        else Throwing)"
    define g :: "task \<times> phase \<Rightarrow> task \<times> phase"
      where "g = (\<lambda>(t', ph). if task_promise t' = p then (t', ph') else (t', ph))"
    define cache where "cache = (if ok
        then (loadedBlobs s)(task_file t \<mapsto> \<lparr>lm_blobUrl = nextUrl s, lm_filename = task_file t,
               lm_type = MediaLoader_getMediaType (task_file t)\<rparr>)
        else loadedBlobs s)"
    have run': "running (readDone p ok s) = map g (running s)"
      and cache': "loadedBlobs (readDone p ok s) = cache"
      and rest: "loadingPromises (readDone p ok s) = loadingPromises s"
        "taskQueue (readDone p ok s) = taskQueue s"
      using Some a Reading
      by (auto simp: readDone_def Let_def g_def ph'_def cache_def split: prod.splits)
    have fg: "fst (g x) = fst x" for x
      by (cases x) (simp add: g_def)
    have fst_g: "map fst (map g (running s)) = map fst (running s)"
      by (simp add: fg)
    have fl: "inFlight (readDone p ok s) = inFlight s"
      by (simp add: inFlight_def run' rest fg)
    have other: "cache (task_file t') = loadedBlobs s (task_file t')"
      if "t' \<in> set (inFlight s)" "t' \<noteq> t" for t'
    proof -
      from flightInv_same_file [OF assms(2) that(1) tin] that(2)
      have "task_file t' \<noteq> task_file t" by auto
      then show ?thesis by (simp add: cache_def)
    qed
    have c2: "ph1 = Returning (Some m1)"
      if h: "(t1, ph1) \<in> set (map g (running s))" "cache (task_file t1) = Some m1" for t1 ph1 m1
    proof -
      from h(1) obtain x where x: "x \<in> set (running s)" and gx: "g x = (t1, ph1)"
        by auto
      obtain t0 ph0 where x0: "x = (t0, ph0)" by (cases x)
      show ?thesis
      proof (cases "task_promise t0 = p")
        case True
        with x x0 m p have "x = (t, ph)"
          using same_promise_same_task [OF poolInv_distinct [OF assms(1)] x m] by simp
        with x0 gx True have e: "t1 = t" "ph1 = ph'"
          by (simp_all add: g_def)
        from h(2) e nc show ?thesis
          by (auto simp: cache_def ph'_def split: if_splits)
      next
        case False
        with gx x0 have e: "t1 = t0" "ph1 = ph0"
          by (simp_all add: g_def)
        from False p have "t0 \<noteq> t" by auto
        moreover from x x0 have "t0 \<in> set (inFlight s)"
          by (force simp: inFlight_def)
        ultimately have "cache (task_file t0) = loadedBlobs s (task_file t0)"
          using other by simp
        with h(2) e f2 x x0 show ?thesis by auto
      qed
    qed
    have c3: "cache (task_file n) = None" if "n \<in> set (taskQueue s)" for n
    proof -
      from that have nin: "n \<in> set (inFlight s)"
        by (simp add: inFlight_def)
      from queue_other_promise [OF assms(1) m that] have "n \<noteq> t" by auto
      from other [OF nin this] f3 that show ?thesis by simp
    qed
    show ?thesis
      unfolding flightInv_def fl run' cache' rest
      using f0 f1 c2 c3 by blast
  qed
qed

lemma flightInv_settle:
  assumes "poolInv s" and "flightInv s"
  shows "flightInv (settle p s)"
proof (cases "List.find (\<lambda>(t, ph). task_promise t = p) (running s)")
  case None
  with assms show ?thesis by (simp add: settle_idle)
next
  case (Some a)
  obtain t ph where a: "a = (t, ph)" by (cases a)
  from find_task [OF Some [unfolded a]] have m: "(t, ph) \<in> set (running s)"
    and p: "task_promise t = p"
    by simp_all
  show ?thesis
  proof (cases "\<exists>me. ph = Reading me")
    case True
    with Some a assms show ?thesis by (auto simp: settle_idle)
  next
    case False
    then have nr: "\<forall>me. ph \<noteq> Reading me" by simp
    from assms(2) have f0: "distinct (map task_file (inFlight s))"
      and f1: "\<forall>t \<in> set (inFlight s). loadingPromises s (task_file t) = Some (task_promise t)"
      and f2: "\<forall>t ph m. (t, ph) \<in> set (running s) \<and> loadedBlobs s (task_file t) = Some m
            \<longrightarrow> ph = Returning (Some m)"
      and f3: "\<forall>t \<in> set (taskQueue s). loadedBlobs s (task_file t) = None"
      unfolding flightInv_def by blast+
    from m have tin: "t \<in> set (inFlight s)"
      by (force simp: inFlight_def)
    let ?r' = "filter (\<lambda>(t', ph). task_promise t' \<noteq> task_promise t) (running s)"
    have sub: "set ?r' \<subseteq> set (running s)" by auto
    have tnot: "t' \<noteq> t" if "(t', ph') \<in> set ?r'" for t' ph'
      using that by auto
    have d': "distinct (map task_file (map fst ?r' @ taskQueue s))"
      using f0 by (auto simp: inFlight_def distinct_map_filter)
    have l': "((loadingPromises s)(task_file t := None)) (task_file t') = Some (task_promise t')"
      if "t' \<in> set (map fst ?r' @ taskQueue s)" for t'
    proof -
      from that sub have i: "t' \<in> set (inFlight s)"
        by (auto simp: inFlight_def)
      have "t' \<noteq> t"
      proof (cases "t' \<in> set (taskQueue s)")
        case True
        from queue_other_promise [OF assms(1) m True] show ?thesis by auto
      next
        case False
        with that show ?thesis by auto
      qed
      with flightInv_same_file [OF assms(2) i tin] have "task_file t' \<noteq> task_file t"
        by auto
      with f1 i show ?thesis by simp
    qed
    have r': "ph' = Returning (Some m')"
      if "(t', ph') \<in> set ?r'" "loadedBlobs s (task_file t') = Some m'" for t' ph' m'
      using that f2 by auto
    show ?thesis
    proof (cases "taskQueue s")
      case Nil
      show ?thesis
        unfolding p [symmetric] settle_running_effect(1) [OF assms(1) m nr Nil]
        using d' l' r' Nil
        by (auto simp: flightInv_def inFlight_def)
    next
      case (Cons n rest)
      from f3 Cons have nn: "loadedBlobs s (task_file n) = None" by simp
      show ?thesis
        unfolding p [symmetric] settle_running_effect(2) [OF assms(1) m nr Cons]
        using d' l' r' Cons nn f3
        by (auto simp: flightInv_def inFlight_def)
    qed
  qed
qed

lemma flightInv_step:
  assumes "poolInv s" and "flightInv s" and "ev = CallCleanup \<longrightarrow> inFlight s = []"
  shows "flightInv (step ev s)"
  using assms
  by (cases ev)
     (simp_all add: flightInv_buildMediaIndex flightInv_loadMedia flightInv_revokeMedia
        flightInv_cleanup flightInv_readDone flightInv_settle)

lemma quietCleanups_snoc:
  "quietCleanups (evs @ [ev]) s =
     (quietCleanups evs s \<and> (ev = CallCleanup \<longrightarrow> inFlight (run evs s) = []))"
  by (induction evs arbitrary: s) (auto simp: run_def)

lemma flightInv_run:
  "poolInv s \<Longrightarrow> flightInv s \<Longrightarrow> quietCleanups evs s \<Longrightarrow> flightInv (run evs s)"
proof (induction evs rule: rev_induct)
  case Nil
  then show ?case by (simp add: run_def)
next
  case (snoc ev evs)
  then show ?case
    by (simp add: run_snoc quietCleanups_snoc flightInv_step poolInv_run)
qed

lemma example_index:
  "buildLoop example_archive [] =
     [(asc ''a.jpg'', [example_photo_entry]), (asc ''a'', [example_photo_entry]),
      (asc ''b.mp4'', [example_clip_entry]), (asc ''b'', [example_clip_entry])]"
  by (simp add: example_archive_def example_photo_def example_clip_def example_photo_entry_def
      example_clip_entry_def endsWith_def extension_of_def toLowerCase_def lowerUnit_def
      indexMediaExts_def indexPush_def firstPiece_def Let_def asc_simps)

lemma example_lookup:
  "doLoadMedia (buildLoop example_archive []) (asc ''a.jpg'') = Reading example_photo_entry"
  "doLoadMedia (buildLoop example_archive []) (asc ''b.mp4'') = Reading example_clip_entry"
  unfolding example_index by (simp_all add: doLoadMedia_def asc_simps)

lemma example_kind: "MediaLoader_getMediaType (asc ''a.jpg'') = Image"
  by (simp add: MediaLoader_getMediaType_def extension_of_def toLowerCase_def lowerUnit_def asc_simps)

lemma example_distinct_names: "asc ''a.jpg'' \<noteq> asc ''b.mp4''"
  by (simp add: asc_simps)

lemma example_loading_run:
  "run [CallBuildMediaIndex example_archive, CallLoadMedia (asc ''a.jpg'')] newLoader
     = example_loading"
  "run [CallCleanup, CallBuildMediaIndex example_archive, CallLoadMedia (asc ''a.jpg'')] newLoader
     = example_loading"
  by (simp_all add: run_def newLoader_def buildMediaIndex_def cleanup_def loadMedia_def
      startTask_def concurrencyLimit_def Let_def example_lookup example_loading_def)

lemma example_cleanup_reload:
  "cleanup example_loading = example_loading\<lparr>loadingPromises := Map.empty\<rparr>"
  "fst (loadMedia (asc ''a.jpg'') example_loading) = Promise 0"
  "fst (loadMedia (asc ''a.jpg'') (cleanup example_loading)) = Promise 1"
  "promises (cleanup example_loading) 0 = Some Pending"
  "running (snd (loadMedia (asc ''a.jpg'') (cleanup example_loading)))
     = [(Task 0 (asc ''a.jpg''), Reading example_photo_entry),
        (Task 1 (asc ''a.jpg''), Reading example_photo_entry)]"
  by (simp_all add: cleanup_def loadMedia_def startTask_def concurrencyLimit_def Let_def
      example_lookup example_loading_def)

lemma example_reload_run:
  "run [CallBuildMediaIndex example_archive, CallLoadMedia (asc ''a.jpg''), CallCleanup,
        CallLoadMedia (asc ''a.jpg''), ReadDone 0 True, Settle 0, ReadDone 1 True, Settle 1]
     newLoader
   = \<lparr>mediaIndex = buildLoop example_archive [],
       loadedBlobs = [asc ''a.jpg'' \<mapsto> example_photo_loaded\<lparr>lm_blobUrl := 1\<rparr>],
       loadingPromises = Map.empty, activeTasks = 0, taskQueue = [],
       promises = [0 \<mapsto> Fulfilled (Some example_photo_loaded),
                   1 \<mapsto> Fulfilled (Some (example_photo_loaded\<lparr>lm_blobUrl := 1\<rparr>))],
       running = [], nextPromise = 2, nextUrl = 2, objectUrls = {0, 1}\<rparr>"
proof -
  let ?a = "asc ''a.jpg''"
  let ?ix = "buildLoop example_archive []"
  let ?h0 = "example_photo_loaded"
  let ?h1 = "example_photo_loaded\<lparr>lm_blobUrl := 1\<rparr>"
  let ?s4 = "\<lparr>mediaIndex = ?ix, loadedBlobs = Map.empty,
       loadingPromises = [?a \<mapsto> 1], activeTasks = 2, taskQueue = [],
       promises = [0 \<mapsto> Pending, 1 \<mapsto> Pending],
       running = [(Task 0 ?a, Reading example_photo_entry),
                  (Task 1 ?a, Reading example_photo_entry)],
       nextPromise = 2, nextUrl = 0, objectUrls = {}\<rparr>"
  let ?s5 = "\<lparr>mediaIndex = ?ix, loadedBlobs = [?a \<mapsto> ?h0],
       loadingPromises = [?a \<mapsto> 1], activeTasks = 2, taskQueue = [],
       promises = [0 \<mapsto> Pending, 1 \<mapsto> Pending],
       running = [(Task 0 ?a, Returning (Some ?h0)),
                  (Task 1 ?a, Reading example_photo_entry)],
       nextPromise = 2, nextUrl = 1, objectUrls = {0}\<rparr>"
  let ?s6 = "\<lparr>mediaIndex = ?ix, loadedBlobs = [?a \<mapsto> ?h0],
       loadingPromises = Map.empty, activeTasks = 1, taskQueue = [],
       promises = [0 \<mapsto> Fulfilled (Some ?h0), 1 \<mapsto> Pending],
       running = [(Task 1 ?a, Reading example_photo_entry)],
       nextPromise = 2, nextUrl = 1, objectUrls = {0}\<rparr>"
  let ?s7 = "\<lparr>mediaIndex = ?ix, loadedBlobs = [?a \<mapsto> ?h1],
       loadingPromises = Map.empty, activeTasks = 1, taskQueue = [],
       promises = [0 \<mapsto> Fulfilled (Some ?h0), 1 \<mapsto> Pending],
       running = [(Task 1 ?a, Returning (Some ?h1))],
       nextPromise = 2, nextUrl = 2, objectUrls = {0, 1}\<rparr>"
  have s4: "snd (loadMedia ?a (cleanup example_loading)) = ?s4"
    by (simp add: cleanup_def loadMedia_def startTask_def concurrencyLimit_def Let_def
        example_lookup example_loading_def)
  have s5: "readDone 0 True ?s4 = ?s5"
    by (simp add: readDone_def Let_def example_photo_loaded_def example_kind)
  have s6: "settle 0 ?s5 = ?s6"
    by (simp add: settle_def Let_def processNextTask_def fun_upd_twist)
  have s7: "readDone 1 True ?s6 = ?s7"
    by (simp add: readDone_def Let_def example_photo_loaded_def example_kind insert_commute)
  have s8: "settle 1 ?s7 = \<lparr>mediaIndex = ?ix, loadedBlobs = [?a \<mapsto> ?h1],
       loadingPromises = Map.empty, activeTasks = 0, taskQueue = [],
       promises = [0 \<mapsto> Fulfilled (Some ?h0), 1 \<mapsto> Fulfilled (Some ?h1)],
       running = [], nextPromise = 2, nextUrl = 2, objectUrls = {0, 1}\<rparr>"
    by (simp add: settle_def Let_def processNextTask_def)
  have r: "run [CallBuildMediaIndex example_archive, CallLoadMedia ?a, CallCleanup,
        CallLoadMedia ?a, ReadDone 0 True, Settle 0, ReadDone 1 True, Settle 1] newLoader
      = settle 1 (readDone 1 True (settle 0 (readDone 0 True
          (snd (loadMedia ?a (cleanup
             (run [CallBuildMediaIndex example_archive, CallLoadMedia ?a] newLoader)))))))"
    by (simp add: run_def)
  show ?thesis
    unfolding r example_loading_run s4 s5 s6 s7 s8 ..
qed

text \<open>
  C5: for every file name at most one task is in flight; a call of \<open>loadMedia\<close>
  for a name whose earlier call has neither completed nor failed returns the same
  pending promise, starts no second extraction, and both callers receive the same
  handle. \<open>loadMedia\<close> keeps \<open>loadingPromises\<close> for this (``Return existing promise
  if already loading''), but \<open>cleanup\<close> empties that map and leaves the started
  and queued tasks alone, and the viewer calls \<open>cleanup\<close> at every upload, on a
  failed upload and on unmount, whatever is in flight. In the run below a call for
  \<open>a.jpg\<close> gets promise 0; after \<open>cleanup\<close> that promise is still pending; a second
  call for \<open>a.jpg\<close> gets the new promise 1 and starts a second extraction of the
  same entry; and when both reads have ended and both tasks have resumed, the two
  promises are fulfilled with two different handles (blob URLs 0 and 1).
\<close>

theorem cleanup_forgets_tasks_in_flight:
  "fst (loadMedia (asc ''a.jpg'')
         (run [CallBuildMediaIndex example_archive, CallLoadMedia (asc ''a.jpg'')] newLoader))
     = Promise 0
   \<and> promises (run [CallBuildMediaIndex example_archive, CallLoadMedia (asc ''a.jpg''),
                    CallCleanup] newLoader) 0 = Some Pending
   \<and> fst (loadMedia (asc ''a.jpg'')
         (run [CallBuildMediaIndex example_archive, CallLoadMedia (asc ''a.jpg''),
               CallCleanup] newLoader))
     = Promise 1
   \<and> running (run [CallBuildMediaIndex example_archive, CallLoadMedia (asc ''a.jpg''),
                   CallCleanup, CallLoadMedia (asc ''a.jpg'')] newLoader)
     = [(Task 0 (asc ''a.jpg''), Reading example_photo_entry),
        (Task 1 (asc ''a.jpg''), Reading example_photo_entry)]
   \<and> promises (run [CallBuildMediaIndex example_archive, CallLoadMedia (asc ''a.jpg''),
                    CallCleanup, CallLoadMedia (asc ''a.jpg''), ReadDone 0 True, Settle 0,
                    ReadDone 1 True, Settle 1] newLoader) 0
     = Some (Fulfilled (Some example_photo_loaded))
   \<and> promises (run [CallBuildMediaIndex example_archive, CallLoadMedia (asc ''a.jpg''),
                    CallCleanup, CallLoadMedia (asc ''a.jpg''), ReadDone 0 True, Settle 0,
                    ReadDone 1 True, Settle 1] newLoader) 1
     = Some (Fulfilled (Some (example_photo_loaded\<lparr>lm_blobUrl := 1\<rparr>)))
   \<and> example_photo_loaded \<noteq> example_photo_loaded\<lparr>lm_blobUrl := 1\<rparr>"
proof -
  have a: "run [CallBuildMediaIndex example_archive, CallLoadMedia (asc ''a.jpg''),
               CallCleanup] newLoader = cleanup example_loading"
    using run_snoc [of "[CallBuildMediaIndex example_archive, CallLoadMedia (asc ''a.jpg'')]"
        CallCleanup newLoader]
    by (simp add: example_loading_run)
  have b: "run [CallBuildMediaIndex example_archive, CallLoadMedia (asc ''a.jpg''),
               CallCleanup, CallLoadMedia (asc ''a.jpg'')] newLoader
            = snd (loadMedia (asc ''a.jpg'') (cleanup example_loading))"
    using run_snoc [of "[CallBuildMediaIndex example_archive, CallLoadMedia (asc ''a.jpg''),
        CallCleanup]" "CallLoadMedia (asc ''a.jpg'')" newLoader]
    by (simp add: a)
  show ?thesis
    unfolding a b example_loading_run example_reload_run
    by (simp add: example_cleanup_reload(2-5) example_photo_loaded_def)
qed

text \<open>
  Apart from that the map does its work. In a run where \<open>cleanup\<close> is called only
  while no task is in flight, the tasks in flight have different file names. A call
  of \<open>loadMedia\<close> for the name of a task in flight, whose promise is then still
  pending, starts no task and changes nothing; it returns that same promise, or,
  once the extraction has put its result in the cache, that cached result, which
  is the value the pending promise is fulfilled with when the task resumes.
\<close>

lemma quiet_runs_one_task_per_file:
  assumes "quietCleanups evs newLoader" and "s = run evs newLoader"
  shows "distinct (map task_file (inFlight s))
       \<and> (t \<in> set (inFlight s) \<longrightarrow>
            promises s (task_promise t) = Some Pending
            \<and> snd (loadMedia (task_file t) s) = s
            \<and> (fst (loadMedia (task_file t) s) = Promise (task_promise t)
                \<or> (\<exists>m. fst (loadMedia (task_file t) s) = Cached m
                        \<and> (t, Returning (Some m)) \<in> set (running s))))
       \<and> ((t, Returning r) \<in> set (running s) \<longrightarrow>
            promises (step (Settle (task_promise t)) s) (task_promise t) = Some (Fulfilled r))"
proof -
  have inv: "poolInv s"
    unfolding assms(2) by (rule poolInv_run [OF poolInv_newLoader])
  have pinv: "promiseInv s"
    unfolding assms(2) by (rule promiseInv_run [OF poolInv_newLoader promiseInv_newLoader])
  have finv: "flightInv s"
    unfolding assms(2)
    by (rule flightInv_run [OF poolInv_newLoader flightInv_newLoader assms(1)])
  from finv have f0: "distinct (map task_file (inFlight s))"
    and f1: "\<forall>t \<in> set (inFlight s). loadingPromises s (task_file t) = Some (task_promise t)"
    and f2: "\<forall>t ph m. (t, ph) \<in> set (running s) \<and> loadedBlobs s (task_file t) = Some m
          \<longrightarrow> ph = Returning (Some m)"
    and f3: "\<forall>t \<in> set (taskQueue s). loadedBlobs s (task_file t) = None"
    unfolding flightInv_def by blast+
  have b: "t \<in> set (inFlight s) \<longrightarrow>
            promises s (task_promise t) = Some Pending
            \<and> snd (loadMedia (task_file t) s) = s
            \<and> (fst (loadMedia (task_file t) s) = Promise (task_promise t)
                \<or> (\<exists>m. fst (loadMedia (task_file t) s) = Cached m
                        \<and> (t, Returning (Some m)) \<in> set (running s)))"
  proof
    assume t: "t \<in> set (inFlight s)"
    from pinv t have pend: "promises s (task_promise t) = Some Pending"
      unfolding promiseInv_def by blast
    show "promises s (task_promise t) = Some Pending
            \<and> snd (loadMedia (task_file t) s) = s
            \<and> (fst (loadMedia (task_file t) s) = Promise (task_promise t)
                \<or> (\<exists>m. fst (loadMedia (task_file t) s) = Cached m
                        \<and> (t, Returning (Some m)) \<in> set (running s)))"
    proof (cases "loadedBlobs s (task_file t)")
      case None
      from f1 t have "loadingPromises s (task_file t) = Some (task_promise t)"
        by blast
      from loadMedia_coalesced [OF None this] pend show ?thesis
        by simp
    next
      case (Some m)
      with f3 have "t \<notin> set (taskQueue s)"
        by auto
      with t obtain ph where r: "(t, ph) \<in> set (running s)"
        by (auto simp: inFlight_def)
      with f2 Some have "ph = Returning (Some m)"
        by blast
      with r loadMedia_cached [OF Some] pend show ?thesis
        by simp
    qed
  qed
  have c: "(t, Returning r) \<in> set (running s) \<longrightarrow>
            promises (step (Settle (task_promise t)) s) (task_promise t) = Some (Fulfilled r)"
  proof
    assume m: "(t, Returning r) \<in> set (running s)"
    have nr: "\<forall>me. Returning r \<noteq> Reading me" by simp
    show "promises (step (Settle (task_promise t)) s) (task_promise t) = Some (Fulfilled r)"
    proof (cases "taskQueue s")
      case Nil
      show ?thesis
        by (simp add: settle_running_effect(1) [OF inv m nr Nil] settleResult_def)
    next
      case (Cons n rest)
      show ?thesis
        by (simp add: settle_running_effect(2) [OF inv m nr Cons] settleResult_def)
    qed
  qed
  from f0 b c show ?thesis by blast
qed

lemma example_two_loading_run:
  "run [CallBuildMediaIndex example_archive, CallLoadMedia (asc ''a.jpg''),
        CallLoadMedia (asc ''b.mp4'')] newLoader = example_two_loading"
  using run_snoc [of "[CallBuildMediaIndex example_archive, CallLoadMedia (asc ''a.jpg'')]"
      "CallLoadMedia (asc ''b.mp4'')" newLoader]
  by (simp add: example_loading_run)
     (simp add: example_loading_def example_two_loading_def loadMedia_def startTask_def
        concurrencyLimit_def Let_def example_lookup example_distinct_names
        example_distinct_names [symmetric])

theorem extraction_failure_contained_witness:
  "promises (run [CallBuildMediaIndex example_archive, CallLoadMedia (asc ''a.jpg''),
        CallLoadMedia (asc ''b.mp4''), ReadDone 0 False, Settle 0] newLoader) 0
     = Some (Fulfilled None)
   \<and> loadingPromises (run [CallBuildMediaIndex example_archive, CallLoadMedia (asc ''a.jpg''),
        CallLoadMedia (asc ''b.mp4''), ReadDone 0 False, Settle 0] newLoader) (asc ''a.jpg'')
     = None
   \<and> activeTasks (run [CallBuildMediaIndex example_archive, CallLoadMedia (asc ''a.jpg''),
        CallLoadMedia (asc ''b.mp4''), ReadDone 0 False, Settle 0] newLoader) = 1
   \<and> (Task 1 (asc ''b.mp4''), Reading example_clip_entry)
       \<in> set (running (run [CallBuildMediaIndex example_archive, CallLoadMedia (asc ''a.jpg''),
        CallLoadMedia (asc ''b.mp4''), ReadDone 0 False, Settle 0] newLoader))"
proof -
  let ?e2 = "[CallBuildMediaIndex example_archive, CallLoadMedia (asc ''a.jpg''),
        CallLoadMedia (asc ''b.mp4'')]"
  let ?s2 = "run ?e2 newLoader"
  let ?s3 = "run (?e2 @ [ReadDone 0 False]) newLoader"
  let ?s4 = "run ((?e2 @ [ReadDone 0 False]) @ [Settle 0]) newLoader"
  let ?a = "Task 0 (asc ''a.jpg'')"
  have s3: "?s3 = step (ReadDone (task_promise ?a) False) ?s2"
    by (simp only: run_snoc task.sel)
  have s4: "?s4 = step (Settle (task_promise ?a)) ?s3"
    by (simp only: run_snoc task.sel)
  have m2: "(?a, Reading example_photo_entry) \<in> set (running ?s2)"
    "(Task 1 (asc ''b.mp4''), Reading example_clip_entry) \<in> set (running ?s2)"
    "activeTasks ?s2 = 2" "taskQueue ?s2 = []"
    by (simp_all add: example_two_loading_run example_two_loading_def)
  note t2 = extraction_failure_contained [of ?s2 ?e2 ?a example_photo_entry, OF refl,
      THEN conjunct2, THEN conjunct1, rule_format, OF m2(1), unfolded Let_def, folded s3]
  from t2 m2 have m3: "(?a, Throwing) \<in> set (running ?s3)"
    "(Task 1 (asc ''b.mp4''), Reading example_clip_entry) \<in> set (running ?s3)"
    "activeTasks ?s3 = 2" "taskQueue ?s3 = []"
    by auto
  note t3 = extraction_failure_contained [of ?s3 "?e2 @ [ReadDone 0 False]" ?a, OF refl,
      THEN conjunct2, THEN conjunct2, rule_format, OF m3(1), unfolded Let_def, folded s4]
  from t3 m3 have "promises ?s4 0 = Some (Fulfilled None)"
    "loadingPromises ?s4 (asc ''a.jpg'') = None"
    "activeTasks ?s4 = 1"
    "(Task 1 (asc ''b.mp4''), Reading example_clip_entry) \<in> set (running ?s4)"
    by auto
  then show ?thesis by simp
qed

lemma loadMedia_not_cached:
  "loadedBlobs s f = None \<Longrightarrow> fst (loadMedia f s) \<noteq> Cached m"
  by (simp add: loadMedia_def Let_def split: option.splits)

lemma quiet_runs_one_task_per_file_example:
  "fst (loadMedia (asc ''a.jpg'')
      (run [CallCleanup, CallBuildMediaIndex example_archive, CallLoadMedia (asc ''a.jpg'')]
         newLoader)) = Promise 0
   \<and> snd (loadMedia (asc ''a.jpg'')
      (run [CallCleanup, CallBuildMediaIndex example_archive, CallLoadMedia (asc ''a.jpg'')]
         newLoader))
     = run [CallCleanup, CallBuildMediaIndex example_archive, CallLoadMedia (asc ''a.jpg'')]
         newLoader
   \<and> fst (loadMedia (asc ''a.jpg'')
      (run [CallCleanup, CallBuildMediaIndex example_archive, CallLoadMedia (asc ''a.jpg''),
            ReadDone 0 True] newLoader)) = Cached example_photo_loaded
   \<and> promises
      (run [CallCleanup, CallBuildMediaIndex example_archive, CallLoadMedia (asc ''a.jpg''),
            ReadDone 0 True, Settle 0] newLoader) 0 = Some (Fulfilled (Some example_photo_loaded))"
proof -
  let ?e1 = "[CallCleanup, CallBuildMediaIndex example_archive, CallLoadMedia (asc ''a.jpg'')]"
  let ?s1 = "run ?e1 newLoader"
  let ?s2 = "run (?e1 @ [ReadDone 0 True]) newLoader"
  let ?s3 = "run ((?e1 @ [ReadDone 0 True]) @ [Settle 0]) newLoader"
  let ?a = "Task 0 (asc ''a.jpg'')"
  have q: "quietCleanups ?e1 newLoader" "quietCleanups (?e1 @ [ReadDone 0 True]) newLoader"
    by (simp_all add: inFlight_def newLoader_def)
  have s3: "?s3 = step (Settle (task_promise ?a)) ?s2"
    by (simp only: run_snoc task.sel)
  have m1: "?a \<in> set (inFlight ?s1)" "loadedBlobs ?s1 (asc ''a.jpg'') = None"
    by (simp_all add: example_loading_run inFlight_def example_loading_def)
  have s2: "?s2 = readDone 0 True example_loading"
    by (simp only: run_snoc example_loading_run step.simps)
  have m2: "(?a, Returning (Some example_photo_loaded)) \<in> set (running ?s2)"
    "loadedBlobs ?s2 (asc ''a.jpg'') = Some example_photo_loaded"
    unfolding s2
    by (simp_all add: readDone_def example_loading_def example_photo_loaded_def Let_def
        example_kind)
  then have i2: "?a \<in> set (inFlight ?s2)"
    by (force simp: inFlight_def)
  note t1 = quiet_runs_one_task_per_file [OF q(1) refl, of ?a, THEN conjunct2, THEN conjunct1, rule_format,
      OF m1(1)]
  note t2 = quiet_runs_one_task_per_file [OF q(2) refl, of ?a "Some example_photo_loaded", THEN conjunct2]
  from t1 m1(2) have a: "fst (loadMedia (asc ''a.jpg'') ?s1) = Promise 0"
    "snd (loadMedia (asc ''a.jpg'') ?s1) = ?s1"
    using loadMedia_not_cached [OF m1(2)] by auto
  from t2 [THEN conjunct1, rule_format, OF i2] m2(2)
  have b: "fst (loadMedia (asc ''a.jpg'') ?s2) = Cached example_photo_loaded"
    by (auto simp: loadMedia_cached)
  from t2 [THEN conjunct2, rule_format, OF m2(1), folded s3]
  have c: "promises ?s3 0 = Some (Fulfilled (Some example_photo_loaded))"
    by simp
  from a b c show ?thesis by simp
qed

end
